theory Spec2Isabelle
  imports Complex_Main "HOL-Library.Word" "HOL-Library.AList" "HOL-Library.Multiset"
    "HOL-Library.List_Lexorder" "HOL-Library.Char_ord"
begin

unbundle bit_operations_syntax

section \<open>Configuration (pkg/vault-proxy/config.go)\<close>

definition VAULT_CACHE_DEFAULT_EXPIRATION :: int where
  "VAULT_CACHE_DEFAULT_EXPIRATION = 30"

definition VAULT_CACHE_PURGE_FREQUENCY :: int where
  "VAULT_CACHE_PURGE_FREQUENCY = 30"

definition CACHEABLE_SUBPATHS :: "string list" where
  "CACHEABLE_SUBPATHS = [''/v1/secret/data'']"

definition METHODS_TO_IGNORE :: "string list" where
  "METHODS_TO_IGNORE = [''DELETE'', ''POST'', ''PATCH'']"

definition CACHE_SIZE :: nat where
  "CACHE_SIZE = 2"

section \<open>Request classification (parseHeader)\<close>

text \<open>Go's \<open>strings.HasPrefix\<close> and \<open>strings.Contains\<close> on byte strings.\<close>

fun HasPrefix :: "string \<Rightarrow> string \<Rightarrow> bool" where
  "HasPrefix s [] = True"
| "HasPrefix [] (p # ps) = False"
| "HasPrefix (c # cs) (p # ps) = (c = p \<and> HasPrefix cs ps)"

fun Contains :: "string \<Rightarrow> string \<Rightarrow> bool" where
  "Contains [] substr = (substr = [])"
| "Contains (c # cs) substr = (HasPrefix (c # cs) substr \<or> Contains cs substr)"

text \<open>
  The loop shared by \<open>checkPathCacheable\<close> and \<open>checkRequestIgnorable\<close>: range over the
  configured names and return true at the first one that the subject contains.
\<close>

fun containsAnyOf :: "string \<Rightarrow> string list \<Rightarrow> bool" where
  "containsAnyOf s [] = False"
| "containsAnyOf s (name # names) = (if Contains s name then True else containsAnyOf s names)"

definition checkPathCacheable :: "string \<Rightarrow> bool" where
  "checkPathCacheable path = containsAnyOf path CACHEABLE_SUBPATHS"

definition checkRequestIgnorable :: "string \<Rightarrow> bool" where
  "checkRequestIgnorable method = containsAnyOf method METHODS_TO_IGNORE"

text \<open>The methods that RFC 9110 and RFC 5789 define.\<close>

definition standardMethods :: "string list" where
  "standardMethods =
     [''GET'', ''HEAD'', ''POST'', ''PUT'', ''PATCH'', ''DELETE'', ''CONNECT'', ''OPTIONS'', ''TRACE'']"

section \<open>HTTP messages (net/http, as far as the proxy uses it)\<close>

text \<open>
  A body is a stream: it yields \<open>bytes\<close> and then ends, with end-of-file or with a read
  error. \<open>memReader\<close> is \<open>io.NopCloser(strings.NewReader(s))\<close>, which never fails.
\<close>

record body =
  bytes :: string
  readErr :: bool

definition memReader :: "string \<Rightarrow> body" where
  "memReader s = \<lparr>bytes = s, readErr = False\<rparr>"

text \<open>\<open>http.Header\<close> is a map from a name to its values; an absent name has no values.\<close>

type_synonym header = "string \<Rightarrow> string list"

definition noHeader :: header where
  "noHeader = (\<lambda>k. [])"

definition headerGet :: "header \<Rightarrow> string \<Rightarrow> string" where
  "headerGet h k = (case h k of [] \<Rightarrow> [] | v # vs \<Rightarrow> v)"

definition headerSet :: "header \<Rightarrow> string \<Rightarrow> string \<Rightarrow> header" where
  "headerSet h k v = h(k := [v])"

record httpResponse =
  StatusCode :: int
  Header :: header
  Body :: body

record httpRequest =
  Method :: string
  Path :: string
  ReqHeader :: header

text \<open>utils.go: every value of every name of \<open>src\<close> is appended to \<open>dst\<close>.\<close>

definition copyHeaders :: "header \<Rightarrow> header \<Rightarrow> header" where
  "copyHeaders dst src = (\<lambda>k. dst k @ src k)"

text \<open>
  The \<open>http.ResponseWriter\<close> of one request: the header map, the status line and headers
  as sent (the first \<open>WriteHeader\<close> wins, later ones are ignored), and the body bytes.
\<close>

record responseWriter =
  wHeader :: header
  wStatus :: "int option"
  wSent :: header
  wBody :: string

definition newWriter :: responseWriter where
  "newWriter = \<lparr>wHeader = noHeader, wStatus = None, wSent = noHeader, wBody = []\<rparr>"

definition WriteHeader :: "int \<Rightarrow> responseWriter \<Rightarrow> responseWriter" where
  "WriteHeader code w =
     (if wStatus w = None then w\<lparr>wStatus := Some code, wSent := wHeader w\<rparr> else w)"

definition Write :: "string \<Rightarrow> responseWriter \<Rightarrow> responseWriter" where
  "Write s w = (let w' = WriteHeader 200 w in w'\<lparr>wBody := wBody w' @ s\<rparr>)"

text \<open>\<open>http.Error(w, msg, code)\<close>: a plain-text reply with the message and a newline.\<close>

definition httpError :: "responseWriter \<Rightarrow> string \<Rightarrow> int \<Rightarrow> responseWriter" where
  "httpError w msg code =
     (let h = headerSet (headerSet (wHeader w) ''Content-Type'' ''text/plain; charset=utf-8'')
                ''X-Content-Type-Options'' ''nosniff''
      in Write (msg @ [CHR 0x0A]) (WriteHeader code (w\<lparr>wHeader := h\<rparr>)))"

text \<open>
  \<open>io.Copy(writer, body)\<close>: the bytes the body yields reach the writer; the result says
  whether the copy returned an error. The error is that of the read; a write that fails
  because the client has gone is not modelled.
\<close>

definition copyToWriter :: "responseWriter \<Rightarrow> body \<Rightarrow> responseWriter \<times> bool" where
  "copyToWriter w b = (Write (bytes b) w, readErr b)"

text \<open>How a call ends: it returns, it panics, or \<open>log.Fatal\<close> ends the process.\<close>

datatype 'a run = Done 'a | Panic 'a | Fatal 'a

section \<open>Cache entries (cachedResponse)\<close>

text \<open>Times are \<open>time.Now().UnixMilli()\<close>; one call of an operation reads one instant.\<close>

record cachedResponse =
  response :: httpResponse
  bodyData :: string
  expires :: int
  lastUsed :: int

definition getResponse :: "cachedResponse \<Rightarrow> httpResponse" where
  "getResponse cr = (response cr)\<lparr>Body := memReader (bodyData cr)\<rparr>"

definition isExpired :: "cachedResponse \<Rightarrow> int \<Rightarrow> bool" where
  "isExpired cr now = (now > expires cr)"

text \<open>
  \<open>newCachedResponse\<close> copies the body into a buffer and drops the error of the copy, puts
  an in-memory reader over the copied bytes back into the response, and stamps the entry.
\<close>

definition newCachedResponse :: "httpResponse \<Rightarrow> int \<Rightarrow> cachedResponse" where
  "newCachedResponse resp now =
     (let body = bytes (Body resp);
          resp' = resp\<lparr>Body := memReader body\<rparr>
      in \<lparr>response = resp', bodyData = body,
          expires = now + VAULT_CACHE_DEFAULT_EXPIRATION * 1000, lastUsed = now\<rparr>)"

section \<open>The cache (vaultCache)\<close>

text \<open>
  The Go map is an association list with distinct keys; its order is the order in which a
  \<open>range\<close> over the map meets the keys, which the runtime is free to choose.
\<close>

type_synonym cacheMap = "(string \<times> cachedResponse) list"

record vaultCache =
  cache :: cacheMap
  lastCachePurge :: int

definition getFromCache :: "vaultCache \<Rightarrow> string \<Rightarrow> cachedResponse option" where
  "getFromCache c key = map_of (cache c) key"

text \<open>\<open>c.cache[k].lastUsed\<close> for a key of the map.\<close>

definition lastUsedOf :: "cacheMap \<Rightarrow> string \<Rightarrow> int" where
  "lastUsedOf m k = (case map_of m k of Some cr \<Rightarrow> lastUsed cr | None \<Rightarrow> 0)"

text \<open>
  The deletion loop of \<open>purgeLruCacheEntries\<close>, which \<open>purgeLruTokenLimiters\<close> repeats
  word for word: delete the key, then stop when the index has reached a quarter of the
  length that the map has now.
\<close>

fun purgeLoop :: "nat \<Rightarrow> string list \<Rightarrow> (string \<times> 'v) list \<Rightarrow> (string \<times> 'v) list" where
  "purgeLoop i [] m = m"
| "purgeLoop i (k # ks) m =
     (let m' = AList.delete k m
      in if i \<ge> length m' div 4 then m' else purgeLoop (Suc i) ks m')"

definition purgeLruCacheEntries :: "cacheMap \<Rightarrow> cacheMap" where
  "purgeLruCacheEntries m =
     (if length m \<ge> CACHE_SIZE
      then purgeLoop 0 (sort_key (lastUsedOf m) (map fst m)) m
      else m)"

definition setInCache :: "vaultCache \<Rightarrow> string \<Rightarrow> httpResponse \<Rightarrow> int \<Rightarrow> vaultCache" where
  "setInCache c key resp now =
     c\<lparr>cache := AList.update key (newCachedResponse resp now) (purgeLruCacheEntries (cache c))\<rparr>"

definition removeFromCache :: "vaultCache \<Rightarrow> string \<Rightarrow> vaultCache" where
  "removeFromCache c key = c\<lparr>cache := AList.delete key (cache c)\<rparr>"

definition purgeOldCacheEntries :: "vaultCache \<Rightarrow> int \<Rightarrow> vaultCache" where
  "purgeOldCacheEntries c now =
     (if now - VAULT_CACHE_PURGE_FREQUENCY * 1000 > lastCachePurge c
      then c\<lparr>cache := filter (\<lambda>(key, cr). \<not> isExpired cr now) (cache c), lastCachePurge := now\<rparr>
      else c)"

definition VAULT_TOKEN_HEADER :: string where
  "VAULT_TOKEN_HEADER = ''X-Vault-Token''"

definition VAULT_NAMESPACE_HEADER :: string where
  "VAULT_NAMESPACE_HEADER = ''X-Vault-Namespace''"

text \<open>
  The cache key is the hex MD5 digest of token, path and namespace joined by dashes. The
  digest function \<open>md5hex\<close> (crypto/md5 with encoding/hex) is a parameter.
\<close>

definition getMD5HashedCacheKey :: "(string \<Rightarrow> string) \<Rightarrow> httpRequest \<Rightarrow> string" where
  "getMD5HashedCacheKey md5hex request =
     md5hex (headerGet (ReqHeader request) VAULT_TOKEN_HEADER @ ''-'' @ Path request @ ''-''
             @ headerGet (ReqHeader request) VAULT_NAMESPACE_HEADER)"

text \<open>
  \<open>getCachedResponse\<close>: the sweep first, then the lookup. The error "key not found in
  cache" is \<open>None\<close>; a hit stamps the entry and returns its response.
\<close>

definition getCachedResponse ::
  "(string \<Rightarrow> string) \<Rightarrow> vaultCache \<Rightarrow> httpRequest \<Rightarrow> int \<Rightarrow> vaultCache \<times> httpResponse option" where
  "getCachedResponse md5hex c request now =
     (let c1 = purgeOldCacheEntries c now;
          cacheKey = getMD5HashedCacheKey md5hex request
      in case getFromCache c1 cacheKey of
           Some cr \<Rightarrow>
             if \<not> isExpired cr now
             then (let cr' = cr\<lparr>lastUsed := now\<rparr>
                   in (c1\<lparr>cache := AList.update cacheKey cr' (cache c1)\<rparr>, Some (getResponse cr')))
             else (c1, None)
         | None \<Rightarrow> (c1, None))"

text \<open>
  What \<open>refresher()\<close>, that is \<open>client.Do\<close>, hands back: a response pointer that may be
  nil and an error that may be nil.
\<close>

type_synonym upstream = "httpResponse option \<times> string option"

text \<open>
  \<open>refreshCache\<close> reads \<open>response.StatusCode\<close> before it looks at the error, so a nil
  response panics there.
\<close>

definition refreshCache ::
  "(string \<Rightarrow> string) \<Rightarrow> vaultCache \<Rightarrow> httpRequest \<Rightarrow> upstream \<Rightarrow> int
     \<Rightarrow> (vaultCache \<times> httpResponse option \<times> string option) run" where
  "refreshCache md5hex c request refreshed now =
     (let cacheKey = getMD5HashedCacheKey md5hex request
      in case fst refreshed of
           None \<Rightarrow> Panic (c, None, snd refreshed)
         | Some resp \<Rightarrow>
             if StatusCode resp = 200
             then Done (setInCache c cacheKey resp now,
                        Some (response (newCachedResponse resp now)), snd refreshed)
             else Done (c, Some resp, snd refreshed))"

text \<open>
  \<open>NewVaultCache\<close>, and the caches that the program can hold: the new cache, and what
  \<open>setInCache\<close>, \<open>removeFromCache\<close> and \<open>getCachedResponse\<close>, the only functions that write
  the map, make of a cache that it holds.
\<close>

definition NewVaultCache :: "int \<Rightarrow> vaultCache" where
  "NewVaultCache now = \<lparr>cache = [], lastCachePurge = now\<rparr>"

inductive held :: "(string \<Rightarrow> string) \<Rightarrow> vaultCache \<Rightarrow> bool" for md5hex where
  new: "held md5hex (NewVaultCache now)"
| set: "held md5hex c \<Longrightarrow> held md5hex (setInCache c key resp now)"
| remove: "held md5hex c \<Longrightarrow> held md5hex (removeFromCache c key)"
| get: "held md5hex c \<Longrightarrow> held md5hex (fst (getCachedResponse md5hex c request now))"

section \<open>What the stages share\<close>

text \<open>The record that \<open>ParseHeaderHandler\<close> attaches to the request context.\<close>

record parseHeader =
  vaultCacheKey :: string
  limiterCacheKey :: string
  isPathCacheable :: bool
  isRequestIgnorable :: bool

text \<open>
  The tail that \<open>ServeHTTP\<close>, \<open>RateLimitHandler\<close> and \<open>VaultAgentHandler\<close> share:
  \<open>defer response.Body.Close()\<close>, which panics on a nil response, then \<open>copyHeaders\<close>,
  \<open>WriteHeader\<close> and \<open>io.Copy\<close>, with \<open>log.Fatal\<close> when the copy returns an error.
\<close>

definition writeResponse ::
  "'s \<Rightarrow> responseWriter \<Rightarrow> httpResponse option \<Rightarrow> ('s \<times> responseWriter) run" where
  "writeResponse st writer resp =
     (case resp of
        None \<Rightarrow> Panic (st, writer)
      | Some r \<Rightarrow>
          (let w1 = writer\<lparr>wHeader := copyHeaders (wHeader writer) (Header r)\<rparr>;
               w2 = WriteHeader (StatusCode r) w1;
               copied = copyToWriter w2 (Body r)
           in if snd copied then Fatal (st, fst copied) else Done (st, fst copied)))"

section \<open>Rate limiting configuration\<close>

definition RATE_LIMITER_DEFAULT_EXPIRATION :: int where
  "RATE_LIMITER_DEFAULT_EXPIRATION = 60"

definition RATE_LIMITER_PURGE_FREQUENCY :: int where
  "RATE_LIMITER_PURGE_FREQUENCY = 60"

definition BURST_LIMIT_PER_SECOND :: int where
  "BURST_LIMIT_PER_SECOND = 2"

definition RATE_LIMIT_PER_MINUTE :: int where
  "RATE_LIMIT_PER_MINUTE = 5"

definition RATE_LIMITER_BUCKET_SIZE :: int where
  "RATE_LIMITER_BUCKET_SIZE = 5"

definition RATE_LIMITER_CACHE_SIZE :: nat where
  "RATE_LIMITER_CACHE_SIZE = 2"

section \<open>The composite limiter (multiLimiter)\<close>

text \<open>
  The components are values of the interface \<open>RateLimiter\<close>. Their state has the type
  \<open>'b\<close>; their methods are the arguments \<open>allowOf\<close>, which returns the answer of \<open>Allow()\<close>
  with the state after the call, and \<open>limitOf\<close>, which is \<open>Limit()\<close>, in events per second.
\<close>

record 'b multiLimiter =
  limiters :: "'b list"

text \<open>\<open>sort.Slice\<close> with \<open>byLimit\<close>: ascending by \<open>Limit()\<close>.\<close>

definition MultiLimiter :: "('b \<Rightarrow> rat) \<Rightarrow> 'b list \<Rightarrow> 'b multiLimiter" where
  "MultiLimiter limitOf ls = \<lparr>limiters = sort_key limitOf ls\<rparr>"

text \<open>The loop of \<open>Allow\<close>: ask each component in order, return false at the first refusal.\<close>

fun allowEach :: "('b \<Rightarrow> bool \<times> 'b) \<Rightarrow> 'b list \<Rightarrow> bool \<times> 'b list" where
  "allowEach allowOf [] = (True, [])"
| "allowEach allowOf (b # bs) =
     (let r = allowOf b
      in if \<not> fst r then (False, snd r # bs)
         else (let rs = allowEach allowOf bs in (fst rs, snd r # snd rs)))"

definition Allow :: "('b \<Rightarrow> bool \<times> 'b) \<Rightarrow> 'b multiLimiter \<Rightarrow> bool \<times> 'b multiLimiter" where
  "Allow allowOf l = (let r = allowEach allowOf (limiters l) in (fst r, l\<lparr>limiters := snd r\<rparr>))"

text \<open>\<open>l.limiters[0].Limit()\<close>; the index is out of range, a panic, on no components.\<close>

definition Limit :: "('b \<Rightarrow> rat) \<Rightarrow> 'b multiLimiter \<Rightarrow> rat option" where
  "Limit limitOf l = (case limiters l of [] \<Rightarrow> None | b # bs \<Rightarrow> Some (limitOf b))"

section \<open>The token bucket (golang.org/x/time/rate)\<close>

text \<open>
  The package is not part of the repository; this is its documented behaviour. A limiter
  has a rate in events per second and a burst; it starts full; tokens come back at the
  rate, up to the burst; \<open>Allow\<close> takes one token if one is there, and changes nothing if
  not. Rates are rationals here, where the package computes in \<open>float64\<close>; \<open>rate.Inf\<close> is the
  largest \<open>float64\<close>, as in the package.
\<close>

record limiter =
  rateLimit :: rat
  burst :: int
  tokens :: rat
  lastTime :: int

definition rateInf :: rat where
  "rateInf = 2 ^ 1024 - 2 ^ 971"

definition NewLimiter :: "rat \<Rightarrow> int \<Rightarrow> int \<Rightarrow> limiter" where
  "NewLimiter r b now = \<lparr>rateLimit = r, burst = b, tokens = of_int b, lastTime = now\<rparr>"

definition advance :: "limiter \<Rightarrow> int \<Rightarrow> rat" where
  "advance lmt now =
     min (of_int (burst lmt))
         (tokens lmt + of_int (max 0 (now - lastTime lmt)) / 1000 * rateLimit lmt)"

definition allowAt :: "int \<Rightarrow> limiter \<Rightarrow> bool \<times> limiter" where
  "allowAt now lmt =
     (if rateLimit lmt = rateInf then (True, lmt)
      else (let t = advance lmt now
            in if t \<ge> 1 then (True, lmt\<lparr>tokens := t - 1, lastTime := now\<rparr>) else (False, lmt)))"

text \<open>\<open>rate.Every\<close> of an interval in nanoseconds.\<close>

definition Every :: "int \<Rightarrow> rat" where
  "Every interval = (if interval \<le> 0 then rateInf else 1 / (of_int interval / 1000000000))"

definition Second :: int where
  "Second = 1000000000"

definition Minute :: int where
  "Minute = 60 * Second"

text \<open>
  \<open>Per\<close>. The division panics on a count of zero; the registry is built from the positive
  counts of config.go.
\<close>

definition Per :: "int \<Rightarrow> int \<Rightarrow> rat" where
  "Per eventCount duration = Every (duration div eventCount)"

section \<open>The limiter registry (tokenRateLimiter)\<close>

record visitor =
  vLimiter :: "limiter multiLimiter"
  vLastUsed :: int

text \<open>
  The registry has a pointer to the cache that the proxy stage shares; the cache is passed
  beside the registry.
\<close>

record tokenRateLimiter =
  limiterCache :: "(string \<times> visitor) list"
  burstLimitPerSec :: int
  rateLimitPerMin :: int
  rateLimiterBucketSize :: int
  lastRateLimiterPurge :: int

definition NewTokenRateLimiter :: "int \<Rightarrow> int \<Rightarrow> int \<Rightarrow> int \<Rightarrow> tokenRateLimiter" where
  "NewTokenRateLimiter burstPerSec ratePerMin limiterBucketSize now =
     \<lparr>limiterCache = [], burstLimitPerSec = burstPerSec, rateLimitPerMin = ratePerMin,
      rateLimiterBucketSize = limiterBucketSize, lastRateLimiterPurge = now\<rparr>"

definition visitorLastUsed :: "(string \<times> visitor) list \<Rightarrow> string \<Rightarrow> int" where
  "visitorLastUsed m k = (case map_of m k of Some v \<Rightarrow> vLastUsed v | None \<Rightarrow> 0)"

definition purgeLruTokenLimiters :: "(string \<times> visitor) list \<Rightarrow> (string \<times> visitor) list" where
  "purgeLruTokenLimiters m =
     (if length m \<ge> RATE_LIMITER_CACHE_SIZE
      then purgeLoop 0 (sort_key (visitorLastUsed m) (map fst m)) m
      else m)"

text \<open>The pair of buckets of a new visitor, as \<open>setInLimiterCache\<close> passes it on.\<close>

definition newVisitorLimiter :: "tokenRateLimiter \<Rightarrow> int \<Rightarrow> limiter multiLimiter" where
  "newVisitorLimiter l now =
     MultiLimiter rateLimit
       [NewLimiter (Per (burstLimitPerSec l) Second) 1 now,
        NewLimiter (Per (rateLimitPerMin l) Minute) (rateLimiterBucketSize l) now]"

definition setInLimiterCache ::
  "tokenRateLimiter \<Rightarrow> string \<Rightarrow> int \<Rightarrow> tokenRateLimiter \<times> limiter multiLimiter" where
  "setInLimiterCache l token now =
     (let purged = purgeLruTokenLimiters (limiterCache l);
          lmt = newVisitorLimiter l now
      in (l\<lparr>limiterCache := AList.update token \<lparr>vLimiter = lmt, vLastUsed = now\<rparr> purged\<rparr>, lmt))"

definition getFromLimiterCache ::
  "tokenRateLimiter \<Rightarrow> string \<Rightarrow> int \<Rightarrow> tokenRateLimiter \<times> limiter multiLimiter" where
  "getFromLimiterCache l token now =
     (case map_of (limiterCache l) token of
        None \<Rightarrow> setInLimiterCache l token now
      | Some v \<Rightarrow>
          (l\<lparr>limiterCache := AList.update token (v\<lparr>vLastUsed := now\<rparr>) (limiterCache l)\<rparr>,
           vLimiter v))"

definition purgeTokenLimiters :: "tokenRateLimiter \<Rightarrow> int \<Rightarrow> tokenRateLimiter" where
  "purgeTokenLimiters l now =
     (if now - RATE_LIMITER_PURGE_FREQUENCY * 1000 > lastRateLimiterPurge l
      then l\<lparr>limiterCache :=
               filter (\<lambda>(token, v). \<not> now > vLastUsed v + RATE_LIMITER_DEFAULT_EXPIRATION * 1000)
                 (limiterCache l),
             lastRateLimiterPurge := now\<rparr>
      else l)"

section \<open>The rate limiter stage (RateLimitHandler)\<close>

text \<open>
  The calls that the handler makes on the limiter and on the cache, in the order in which
  it makes them, and the exit that it takes.
\<close>

datatype event = AllowCalled string | CacheLookup string

datatype verdict = ServedFromCache | TooManyRequests | PassedToNext

record handled =
  hRegistry :: tokenRateLimiter
  hCache :: vaultCache
  hWriter :: responseWriter
  hTrace :: "event list"
  hVerdict :: verdict

text \<open>
  The limiter that \<open>getFromLimiterCache\<close> returns is a pointer into the registry, so the
  tokens that \<open>Allow\<close> takes are taken in the registry.
\<close>

definition storeLimiter :: "tokenRateLimiter \<Rightarrow> string \<Rightarrow> limiter multiLimiter \<Rightarrow> tokenRateLimiter" where
  "storeLimiter l token lmt =
     (case map_of (limiterCache l) token of
        None \<Rightarrow> l
      | Some v \<Rightarrow> l\<lparr>limiterCache := AList.update token (v\<lparr>vLimiter := lmt\<rparr>) (limiterCache l)\<rparr>)"

definition RateLimitHandler ::
  "(string \<Rightarrow> string) \<Rightarrow> tokenRateLimiter \<Rightarrow> vaultCache \<Rightarrow> parseHeader \<Rightarrow> httpRequest \<Rightarrow> int
     \<Rightarrow> responseWriter \<Rightarrow> handled run" where
  "RateLimitHandler md5hex l c h request now w =
     (let l1 = purgeTokenLimiters l now;
          rateLimitingKey = limiterCacheKey h;
          got = getFromLimiterCache l1 rateLimitingKey now;
          allowed = Allow (allowAt now) (snd got);
          isAllowed = fst allowed;
          l2 = storeLimiter (fst got) rateLimitingKey (snd allowed);
          t1 = [AllowCalled rateLimitingKey];
          looked = (if isPathCacheable h \<and> \<not> isRequestIgnorable h
                    then getCachedResponse md5hex c request now else (c, None));
          t2 = (if isPathCacheable h \<and> \<not> isRequestIgnorable h
                then t1 @ [CacheLookup (getMD5HashedCacheKey md5hex request)] else t1)
      in case snd looked of
           Some resp \<Rightarrow>
             (case writeResponse () w (Some resp) of
                Done (u, w') \<Rightarrow>
                  Done \<lparr>hRegistry = l2, hCache = fst looked, hWriter = w', hTrace = t2,
                        hVerdict = ServedFromCache\<rparr>
              | Panic (u, w') \<Rightarrow>
                  Panic \<lparr>hRegistry = l2, hCache = fst looked, hWriter = w', hTrace = t2,
                         hVerdict = ServedFromCache\<rparr>
              | Fatal (u, w') \<Rightarrow>
                  Fatal \<lparr>hRegistry = l2, hCache = fst looked, hWriter = w', hTrace = t2,
                         hVerdict = ServedFromCache\<rparr>)
         | None \<Rightarrow>
             if \<not> isAllowed
             then Done \<lparr>hRegistry = l2, hCache = fst looked,
                        hWriter = httpError w ''Too Many Requests'' 429, hTrace = t2,
                        hVerdict = TooManyRequests\<rparr>
             else Done \<lparr>hRegistry = l2, hCache = fst looked, hWriter = w, hTrace = t2,
                        hVerdict = PassedToNext\<rparr>)"

section \<open>The upstream proxy stage (vaultProxy.ServeHTTP)\<close>

text \<open>
  \<open>ServeHTTP\<close>. The rewrite of the request (scheme, host, request URI) only decides where
  \<open>client.Do\<close> sends it; what \<open>client.Do\<close> hands back is the argument \<open>refreshed\<close>.
\<close>

definition ServeHTTP ::
  "(string \<Rightarrow> string) \<Rightarrow> vaultCache \<Rightarrow> parseHeader \<Rightarrow> httpRequest \<Rightarrow> upstream \<Rightarrow> int
     \<Rightarrow> responseWriter \<Rightarrow> (vaultCache \<times> responseWriter) run" where
  "ServeHTTP md5hex c h request refreshed now writer =
     (if isPathCacheable h \<and> \<not> isRequestIgnorable h
      then (case refreshCache md5hex c request refreshed now of
              Done (c', resp, err) \<Rightarrow>
                writeResponse c'
                  (if err \<noteq> None then httpError writer ''Internal Server Error'' 500 else writer)
                  resp
            | Panic (c', resp, err) \<Rightarrow> Panic (c', writer)
            | Fatal (c', resp, err) \<Rightarrow> Fatal (c', writer))
      else writeResponse c
             (if snd refreshed \<noteq> None then httpError writer ''Internal Server Error'' 500
              else writer)
             (fst refreshed))"

fun outcome :: "'a run \<Rightarrow> 'a" where
  "outcome (Done x) = x"
| "outcome (Panic x) = x"
| "outcome (Fatal x) = x"

section \<open>Murmur3 (github.com/spaolacci/murmur3)\<close>

text \<open>
  The package is not part of the repository. \<open>Sum32WithSeed\<close> is MurmurHash3 for 32 bits:
  blocks of four bytes in little-endian order, a tail of up to three bytes, the length, and
  the final mix.
\<close>

definition rotl32 :: "32 word \<Rightarrow> nat \<Rightarrow> 32 word" where
  "rotl32 x r = push_bit r x OR drop_bit (32 - r) x"

definition mixK :: "32 word \<Rightarrow> 32 word" where
  "mixK k = rotl32 (k * 0xcc9e2d51) 15 * 0x1b873593"

definition byteOf :: "char \<Rightarrow> 32 word" where
  "byteOf c = of_char c"

fun blocks :: "32 word \<Rightarrow> string \<Rightarrow> 32 word \<times> string" where
  "blocks h (b0 # b1 # b2 # b3 # rest) =
     blocks (rotl32 (h XOR mixK (byteOf b0 OR push_bit 8 (byteOf b1) OR push_bit 16 (byteOf b2)
                                  OR push_bit 24 (byteOf b3))) 13 * 5 + 0xe6546b64) rest"
| "blocks h tail = (h, tail)"

fun tailK :: "string \<Rightarrow> 32 word" where
  "tailK [t0] = byteOf t0"
| "tailK [t0, t1] = push_bit 8 (byteOf t1) XOR byteOf t0"
| "tailK [t0, t1, t2] = push_bit 16 (byteOf t2) XOR push_bit 8 (byteOf t1) XOR byteOf t0"
| "tailK other = 0"

definition fmix32 :: "32 word \<Rightarrow> 32 word" where
  "fmix32 h0 =
     (let h1 = (h0 XOR drop_bit 16 h0) * 0x85ebca6b;
          h2 = (h1 XOR drop_bit 13 h1) * 0xc2b2ae35
      in h2 XOR drop_bit 16 h2)"

definition Sum32WithSeed :: "string \<Rightarrow> 32 word \<Rightarrow> 32 word" where
  "Sum32WithSeed data seed =
     (let hb = blocks seed data;
          h1 = (if snd hb = [] then fst hb else fst hb XOR mixK (tailK (snd hb)))
      in fmix32 (h1 XOR of_nat (length data)))"

section \<open>Peer membership and routing (vaultAgent)\<close>

definition VAULT_CONFIG_CHECK_FREQUENCY :: int where
  "VAULT_CONFIG_CHECK_FREQUENCY = 5"

definition AGENT_VAULT_PORT_DIFF :: int where
  "AGENT_VAULT_PORT_DIFF = 1000"

text \<open>The structs of the membership document, without the field \<open>Warnings\<close>.\<close>

record Server =
  Address :: string
  Leader :: bool
  NodeId :: string
  ProtocolVersion :: string
  Voter :: bool

record VaultConfigResponse =
  RequestId :: string
  LeaseId :: string
  LeaseDuration :: int
  Renewable :: bool
  Index :: int
  Servers :: "Server list"

definition zeroConfigResponse :: VaultConfigResponse where
  "zeroConfigResponse =
     \<lparr>RequestId = [], LeaseId = [], LeaseDuration = 0, Renewable = False, Index = 0, Servers = []\<rparr>"

record vaultAgent =
  vaultConfigResponse :: VaultConfigResponse
  agentRoutingTable :: "int \<rightharpoonup> string"
  lastConfigCheck :: int
  myAddress :: string

definition NewVaultAgent :: "string \<Rightarrow> vaultAgent" where
  "NewVaultAgent proxyAddress =
     \<lparr>vaultConfigResponse = zeroConfigResponse, agentRoutingTable = Map.empty,
      lastConfigCheck = 0, myAddress = proxyAddress\<rparr>"

definition mockServer1 :: Server where
  "mockServer1 = \<lparr>Address = ''127.0.0.1:9001'', Leader = False, NodeId = ''raft2'',
                   ProtocolVersion = [CHR 0x03], Voter = True\<rparr>"

definition mockServer2 :: Server where
  "mockServer2 = \<lparr>Address = ''127.0.0.1:9001'', Leader = False, NodeId = ''raft3'',
                   ProtocolVersion = [CHR 0x03], Voter = True\<rparr>"

definition addMockServers :: "VaultConfigResponse \<Rightarrow> VaultConfigResponse" where
  "addMockServers responseObject =
     responseObject\<lparr>Servers := (Servers responseObject @ [mockServer1]) @ [mockServer2]\<rparr>"

text \<open>\<open>strings.Split\<close> on a separator of one byte.\<close>

fun Split :: "string \<Rightarrow> char \<Rightarrow> string list" where
  "Split [] sep = [[]]"
| "Split (c # cs) sep =
     (if c = sep then [] # Split cs sep
      else (case Split cs sep of w # ws \<Rightarrow> (c # w) # ws | [] \<Rightarrow> [[c]]))"

text \<open>
  \<open>strconv.Atoi\<close>: an optional sign and decimal digits; \<open>None\<close> is the syntax error. The
  range error of a number beyond 64 bits is not modelled.
\<close>

definition digitValue :: "char \<Rightarrow> nat option" where
  "digitValue c =
     (if CHR ''0'' \<le> c \<and> c \<le> CHR ''9'' then Some (of_char c - 48) else None)"

fun parseDigits :: "nat \<Rightarrow> string \<Rightarrow> nat option" where
  "parseDigits acc [] = Some acc"
| "parseDigits acc (c # cs) =
     (case digitValue c of None \<Rightarrow> None | Some d \<Rightarrow> parseDigits (acc * 10 + d) cs)"

definition parseUnsigned :: "string \<Rightarrow> nat option" where
  "parseUnsigned s = (if s = [] then None else parseDigits 0 s)"

definition Atoi :: "string \<Rightarrow> int option" where
  "Atoi s =
     (case s of
        [] \<Rightarrow> None
      | c # cs \<Rightarrow>
          if c = CHR ''-'' then map_option (\<lambda>n. - int n) (parseUnsigned cs)
          else if c = CHR ''+'' then map_option int (parseUnsigned cs)
          else map_option int (parseUnsigned s))"

text \<open>\<open>strconv.Itoa\<close>.\<close>

definition digitChar :: "nat \<Rightarrow> char" where
  "digitChar d = ''0123456789'' ! d"

fun digitsOf :: "nat \<Rightarrow> string" where
  "digitsOf n = (if n < 10 then [digitChar n] else digitsOf (n div 10) @ [digitChar (n mod 10)])"

declare digitsOf.simps [simp del]

definition Itoa :: "int \<Rightarrow> string" where
  "Itoa i = (if i < 0 then CHR ''-'' # digitsOf (nat (- i)) else digitsOf (nat i))"

text \<open>
  The loop of \<open>changePortMapping\<close>, from index \<open>i\<close>: the servers with their new addresses,
  the errors logged, and whether the loop panicked. It panics on an address without a
  colon, where \<open>addrPort[1]\<close> is out of range; the servers before that one have their new
  addresses by then. An error of \<open>Atoi\<close> is logged and the port is 0.
\<close>

fun mapPorts :: "int \<Rightarrow> Server list \<Rightarrow> Server list \<times> string list \<times> bool" where
  "mapPorts i [] = ([], [], False)"
| "mapPorts i (server # servers) =
     (case Split (Address server) CHR '':'' of
        host # portText # others \<Rightarrow>
          (let parsed = Atoi portText;
               port = (case parsed of Some p \<Rightarrow> p | None \<Rightarrow> 0);
               logged = (case parsed of Some p \<Rightarrow> [] | None \<Rightarrow> [''strconv.Atoi: invalid syntax'']);
               server' = server\<lparr>Address := host @ '':'' @ Itoa (port - AGENT_VAULT_PORT_DIFF + i)\<rparr>;
               rest = mapPorts (i + 1) servers
           in (server' # fst rest, logged @ fst (snd rest), snd (snd rest)))
      | short \<Rightarrow> (server # servers, [], True))"

definition changePortMapping :: "vaultAgent \<Rightarrow> (vaultAgent \<times> string list) run" where
  "changePortMapping a =
     (let r = mapPorts 0 (Servers (vaultConfigResponse a));
          a' = a\<lparr>vaultConfigResponse := (vaultConfigResponse a)\<lparr>Servers := fst r\<rparr>\<rparr>
      in if snd (snd r) then Panic (a', fst (snd r)) else Done (a', fst (snd r)))"

text \<open>
  \<open>sortByNodeId\<close>: \<open>sort.Slice\<close> by \<open>NodeId\<close>, in the byte order of Go strings, then the
  loop that writes the routing table. Entries beyond the new length stay in the table.
  \<open>sort.Slice\<close> is not stable: among servers with equal node ids it may leave another
  order than \<open>sort_key\<close>, which stands for one of the ascending orders.
\<close>

fun fillTable :: "int \<Rightarrow> Server list \<Rightarrow> (int \<rightharpoonup> string) \<Rightarrow> (int \<rightharpoonup> string)" where
  "fillTable i [] table = table"
| "fillTable i (node # nodes) table = fillTable (i + 1) nodes (table(i \<mapsto> Address node))"

definition sortByNodeId :: "vaultAgent \<Rightarrow> vaultAgent" where
  "sortByNodeId a =
     (let nodes = sort_key NodeId (Servers (vaultConfigResponse a))
      in a\<lparr>vaultConfigResponse := (vaultConfigResponse a)\<lparr>Servers := nodes\<rparr>,
           agentRoutingTable := fillTable 0 nodes (agentRoutingTable a)\<rparr>)"

text \<open>
  \<open>GetRoutingServer\<close>. \<open>int\<close> has 64 bits, so \<open>int(hash(token))\<close> is not negative. The
  modulo by zero servers panics: \<open>None\<close>. A missing key of the table reads as the empty
  string.
\<close>

definition hash :: "string \<Rightarrow> 32 word" where
  "hash s = Sum32WithSeed s 0x1234ABCD"

definition GetRoutingServer :: "vaultAgent \<Rightarrow> httpRequest \<Rightarrow> string option" where
  "GetRoutingServer a request =
     (let token = headerGet (ReqHeader request) VAULT_TOKEN_HEADER;
          n = length (Servers (vaultConfigResponse a))
      in if n = 0 then None
         else (let server_no = int (unat (hash token)) mod int n
               in case agentRoutingTable a server_no of
                    Some address \<Rightarrow> Some address
                  | None \<Rightarrow> Some []))"

text \<open>
  \<open>getVaultConfigDetails\<close>. \<open>reply\<close> is what \<open>client.Do\<close> hands back; \<open>unmarshal\<close> is
  \<open>json.Unmarshal\<close> into a zero \<open>VaultConfigResponse\<close>: the object as the call leaves it, and
  the error, which the source drops. The second component of the result is the list of
  the errors that \<open>log.Print\<close> receives. A nil response panics at
  \<open>defer resp.Body.Close()\<close>.
\<close>

definition getVaultConfigDetails ::
  "(string \<Rightarrow> VaultConfigResponse \<times> string option) \<Rightarrow> vaultAgent \<Rightarrow> upstream \<Rightarrow> int
     \<Rightarrow> (vaultAgent \<times> string list) run" where
  "getVaultConfigDetails unmarshal a reply now =
     (if now - VAULT_CONFIG_CHECK_FREQUENCY * 1000 > lastConfigCheck a
      then (let log1 = (case snd reply of Some err \<Rightarrow> [err] | None \<Rightarrow> [])
            in case fst reply of
                 None \<Rightarrow> Panic (a, log1)
               | Some resp \<Rightarrow>
                   (let log2 = log1 @ (if readErr (Body resp) then [''read error''] else []);
                        responseObject = fst (unmarshal (bytes (Body resp)));
                        a1 = a\<lparr>vaultConfigResponse := addMockServers responseObject\<rparr>
                    in case changePortMapping a1 of
                         Done (a2, log3) \<Rightarrow>
                           Done ((sortByNodeId a2)\<lparr>lastConfigCheck := now\<rparr>, log2 @ log3)
                       | Panic (a2, log3) \<Rightarrow> Panic (a2, log2 @ log3)
                       | Fatal (a2, log3) \<Rightarrow> Fatal (a2, log2 @ log3)))
      else Done (a, []))"

text \<open>
  The snapshot as a refresh publishes it: the servers ascending by node id, and the routing
  table holding the address of server \<open>i\<close> at index \<open>i\<close>.
\<close>

definition published :: "vaultAgent \<Rightarrow> bool" where
  "published a \<longleftrightarrow>
     sorted (map NodeId (Servers (vaultConfigResponse a)))
     \<and> (\<forall>i < length (Servers (vaultConfigResponse a)).
           agentRoutingTable a (int i) = Some (Address (Servers (vaultConfigResponse a) ! i)))"

section \<open>Example data\<close>

definition jsonResponse :: "int \<Rightarrow> string \<Rightarrow> httpResponse" where
  "jsonResponse code b =
     \<lparr>StatusCode = code, Header = noHeader(''Content-Type'' := [''application/json'']),
      Body = \<lparr>bytes = b, readErr = False\<rparr>\<rparr>"

definition getRequest :: "string \<Rightarrow> string \<Rightarrow> httpRequest" where
  "getRequest token path =
     \<lparr>Method = ''GET'', Path = path, ReqHeader = noHeader(''X-Vault-Token'' := [token])\<rparr>"

definition fooRequest :: httpRequest where
  "fooRequest = getRequest ''t1'' ''/v1/secret/data/foo''"

definition readHeader :: parseHeader where
  "readHeader = \<lparr>vaultCacheKey = getMD5HashedCacheKey id fooRequest, limiterCacheKey = ''limiter-t1'',
                 isPathCacheable = True, isRequestIgnorable = False\<rparr>"

definition entryUsedAt :: "int \<Rightarrow> cachedResponse" where
  "entryUsedAt t = newCachedResponse (jsonResponse 200 ''{}'') t"

definition emptyCache :: vaultCache where
  "emptyCache = \<lparr>cache = [], lastCachePurge = 0\<rparr>"

text \<open>One entry for \<open>fooRequest\<close>, inserted at instant 0, so that it expires at 30000.\<close>

definition fooCache :: vaultCache where
  "fooCache = \<lparr>cache = [(getMD5HashedCacheKey id fooRequest, entryUsedAt 0)], lastCachePurge = 0\<rparr>"

definition nineEntries :: cacheMap where
  "nineEntries =
     [(''k1'', entryUsedAt 1), (''k2'', entryUsedAt 2), (''k3'', entryUsedAt 3),
      (''k4'', entryUsedAt 4), (''k5'', entryUsedAt 5), (''k6'', entryUsedAt 6),
      (''k7'', entryUsedAt 7), (''k8'', entryUsedAt 8), (''k9'', entryUsedAt 9)]"

definition twoEntries :: vaultCache where
  "twoEntries = \<lparr>cache = [(''k1'', entryUsedAt 5), (''k2'', entryUsedAt 2)], lastCachePurge = 0\<rparr>"

text \<open>The registry as main.go builds it, and the two buckets of a visitor created at \<open>now\<close>.\<close>

definition configRegistry :: tokenRateLimiter where
  "configRegistry =
     NewTokenRateLimiter BURST_LIMIT_PER_SECOND RATE_LIMIT_PER_MINUTE RATE_LIMITER_BUCKET_SIZE 0"

definition sustainedBucket :: "int \<Rightarrow> limiter" where
  "sustainedBucket now = NewLimiter (Per RATE_LIMIT_PER_MINUTE Minute) RATE_LIMITER_BUCKET_SIZE now"

definition burstBucket :: "int \<Rightarrow> limiter" where
  "burstBucket now = NewLimiter (Per BURST_LIMIT_PER_SECOND Second) 1 now"

text \<open>A bucket after one \<open>Allow\<close> at instant 0.\<close>

definition usedOnce :: "limiter \<Rightarrow> limiter" where
  "usedOnce b = snd (allowAt 0 b)"

text \<open>
  The registry after the visitor of \<open>readHeader\<close> has used one request at instant 0: its
  burst bucket is empty.
\<close>

definition busyRegistry :: tokenRateLimiter where
  "busyRegistry =
     configRegistry\<lparr>limiterCache :=
       [(''limiter-t1'',
         \<lparr>vLimiter = \<lparr>limiters = [usedOnce (sustainedBucket 0), usedOnce (burstBucket 0)]\<rparr>,
          vLastUsed = 0\<rparr>)]\<rparr>"

text \<open>
  \<open>json.Unmarshal\<close> on a body that is not JSON: the object stays at its zero value and the
  error is returned. An agent that holds the snapshot of one server, refreshed at 1000.
\<close>

definition notJSON :: "string \<Rightarrow> VaultConfigResponse \<times> string option" where
  "notJSON b = (zeroConfigResponse, Some ''invalid character'')"

definition raft1 :: Server where
  "raft1 = \<lparr>Address = ''127.0.0.1:7080'', Leader = True, NodeId = ''raft1'',
             ProtocolVersion = [CHR 0x03], Voter = True\<rparr>"

definition agent1 :: vaultAgent where
  "agent1 = \<lparr>vaultConfigResponse = zeroConfigResponse\<lparr>Servers := [raft1]\<rparr>,
              agentRoutingTable = [0 \<mapsto> ''127.0.0.1:7080''],
              lastConfigCheck = 1000, myAddress = ''127.0.0.1:7080''\<rparr>"

text \<open>Three peers, as the membership document lists them, before the sort.\<close>

definition peer :: "string \<Rightarrow> string \<Rightarrow> Server" where
  "peer node address =
     \<lparr>Address = address, Leader = False, NodeId = node, ProtocolVersion = [CHR 0x03], Voter = True\<rparr>"

definition threePeers :: vaultAgent where
  "threePeers =
     \<lparr>vaultConfigResponse = zeroConfigResponse\<lparr>Servers :=
        [peer ''raft3'' ''10.0.0.3:7200'', peer ''raft1'' ''10.0.0.1:7200'',
         peer ''raft2'' ''10.0.0.2:7200'']\<rparr>,
      agentRoutingTable = Map.empty, lastConfigCheck = 0, myAddress = ''10.0.0.1:7200''\<rparr>"

section \<open>Properties of the request classification\<close>

lemma HasPrefix_iff: "HasPrefix s p \<longleftrightarrow> (\<exists>rest. s = p @ rest)"
  by (induction s p rule: HasPrefix.induct) auto

lemma Contains_iff: "Contains s sub \<longleftrightarrow> (\<exists>before after. s = before @ sub @ after)"
proof (induction s)
  case Nil
  then show ?case by auto
next
  case (Cons c cs)
  show ?case
  proof
    assume "Contains (c # cs) sub"
    then consider "HasPrefix (c # cs) sub" | "Contains cs sub" by auto
    then show "\<exists>before after. c # cs = before @ sub @ after"
    proof cases
      case 1
      then obtain rest where "c # cs = sub @ rest" by (auto simp: HasPrefix_iff)
      then have "c # cs = [] @ sub @ rest" by simp
      then show ?thesis by blast
    next
      case 2
      then obtain b a where "cs = b @ sub @ a" using Cons.IH by blast
      then have "c # cs = (c # b) @ sub @ a" by simp
      then show ?thesis by blast
    qed
  next
    assume "\<exists>before after. c # cs = before @ sub @ after"
    then obtain b a where eq: "c # cs = b @ sub @ a" by blast
    show "Contains (c # cs) sub"
    proof (cases b)
      case Nil
      with eq have "HasPrefix (c # cs) sub" by (auto simp: HasPrefix_iff)
      then show ?thesis by simp
    next
      case (Cons b0 bs)
      with eq have "cs = bs @ sub @ a" by simp
      then have "Contains cs sub" using Cons.IH by blast
      then show ?thesis by simp
    qed
  qed
qed

lemma containsAnyOf_iff: "containsAnyOf s names \<longleftrightarrow> (\<exists>name \<in> set names. Contains s name)"
  by (induction names) auto

text \<open>
  What the source does on every method string: the test is containment, so a method that
  merely contains a configured name is classified as ignorable too.
\<close>

lemma checkRequestIgnorable_substring:
  "checkRequestIgnorable method \<longleftrightarrow>
     (\<exists>name \<in> set METHODS_TO_IGNORE. \<exists>before after. method = before @ name @ after)"
  by (simp add: checkRequestIgnorable_def containsAnyOf_iff Contains_iff)

lemma checkRequestIgnorable_POSTX: "checkRequestIgnorable ''POSTX''"
  by (simp add: checkRequestIgnorable_def METHODS_TO_IGNORE_def)

text \<open>
  C2, as stated: the request is ignorable (mutating) exactly when its method is one of
  POST, PUT, PATCH, DELETE. The configured list has no PUT, so a PUT request is not
  classified as mutating.
\<close>

theorem C2_put_not_ignorable:
  "\<not> (checkRequestIgnorable ''PUT'' \<longleftrightarrow> ''PUT'' \<in> set [''POST'', ''PUT'', ''PATCH'', ''DELETE''])"
  by (simp add: checkRequestIgnorable_def METHODS_TO_IGNORE_def)

text \<open>
  C2, amended: for a request whose method is one of the standard HTTP methods, the request
  is ignorable exactly when the method is one of the configured names DELETE, POST, PATCH.
\<close>

theorem C2_standard_methods:
  assumes "method \<in> set standardMethods"
  shows "checkRequestIgnorable method \<longleftrightarrow> method \<in> set [''DELETE'', ''POST'', ''PATCH'']"
proof -
  from assms have "method = ''GET'' \<or> method = ''HEAD'' \<or> method = ''POST''
    \<or> method = ''PUT'' \<or> method = ''PATCH'' \<or> method = ''DELETE''
    \<or> method = ''CONNECT'' \<or> method = ''OPTIONS'' \<or> method = ''TRACE''"
    by (simp add: standardMethods_def)
  then show ?thesis
    by (elim disjE) (simp_all add: checkRequestIgnorable_def METHODS_TO_IGNORE_def)
qed

theorem C2_standard_methods_witness:
  "''PATCH'' \<in> set standardMethods \<and> checkRequestIgnorable ''PATCH''
   \<and> ''GET'' \<in> set standardMethods \<and> \<not> checkRequestIgnorable ''GET''"
  using C2_standard_methods [of "''PATCH''"] C2_standard_methods [of "''GET''"]
  by (simp add: standardMethods_def)

section \<open>Properties of the cache\<close>

subsection \<open>Association lists\<close>

lemma map_of_filter_val:
  "distinct (map fst m) \<Longrightarrow>
   map_of (filter (\<lambda>(k, v). P v) m) key =
     (case map_of m key of Some v \<Rightarrow> if P v then Some v else None | None \<Rightarrow> None)"
proof (induction m)
  case Nil
  then show ?case by simp
next
  case (Cons p m)
  obtain k v where p: "p = (k, v)" by (cases p)
  from Cons.prems have d: "distinct (map fst m)" and nk: "k \<notin> fst ` set m" by (auto simp: p)
  have absent: "map_of (filter (\<lambda>(k, v). P v) m) k = None"
    using nk by (auto simp: map_of_eq_None_iff)
  show ?case
    using Cons.IH [OF d] absent by (auto simp: p split: option.splits)
qed

lemma map_of_filter_keys:
  "map_of (filter (\<lambda>p. fst p \<notin> S) m) key = (if key \<in> S then None else map_of m key)"
  by (induction m) auto

lemma delete_filter: "AList.delete k m = filter (\<lambda>p. fst p \<noteq> k) m"
  by (induction m) auto

lemma keys_delete: "fst ` set (AList.delete k m) = fst ` set m - {k}"
  by (induction m) auto

lemma length_delete_present:
  "distinct (map fst m) \<Longrightarrow> k \<in> fst ` set m \<Longrightarrow> Suc (length (AList.delete k m)) = length m"
proof (induction m)
  case Nil
  then show ?case by simp
next
  case (Cons p m)
  show ?case
  proof (cases "fst p = k")
    case True
    then have "k \<notin> fst ` set m" using Cons.prems(1) by auto
    then have "AList.delete k m = m" by (rule delete_id)
    then show ?thesis using True by simp
  next
    case False
    then have "k \<in> fst ` set m" using Cons.prems(2) by auto
    moreover have "distinct (map fst m)" using Cons.prems(1) by simp
    ultimately have "Suc (length (AList.delete k m)) = length m" using Cons.IH by blast
    then show ?thesis using False by simp
  qed
qed

subsection \<open>The eviction pass\<close>

text \<open>
  At index \<open>i\<close> the map has already lost \<open>i + 1\<close> of its \<open>N\<close> keys, and the loop stops
  when \<open>i \<ge> (N - i - 1) div 4\<close>, which is first true at \<open>i = N div 5\<close>.
\<close>

lemma quarter_stop:
  fixes i N :: nat
  assumes "i \<le> N div 5" "i < N"
  shows "(i \<ge> (N - i - 1) div 4) \<longleftrightarrow> (i = N div 5)"
proof -
  have a: "((N - i - 1) div 4 \<le> i) \<longleftrightarrow> (N - i - 1 < 4 * Suc i)"
  proof -
    have "((N - i - 1) div 4 < Suc i) \<longleftrightarrow> (N - i - 1 < Suc i * 4)"
      by (rule div_less_iff_less_mult) simp
    then show ?thesis by (simp add: less_Suc_eq_le mult.commute)
  qed
  have b: "(N - i - 1 < 4 * Suc i) \<longleftrightarrow> (N < 5 * Suc i)" using assms(2) by auto
  have c: "(N < 5 * Suc i) \<longleftrightarrow> (N div 5 < Suc i)"
    using div_less_iff_less_mult [of 5 N "Suc i"] by (simp add: mult.commute)
  show ?thesis using a b c assms(1) by auto
qed

lemma purgeLoop_take:
  assumes "distinct ks" "distinct (map fst m)" "set ks = fst ` set m"
    and "i + length ks = N" "i \<le> N div 5"
  shows "purgeLoop i ks m = filter (\<lambda>p. fst p \<notin> set (take (N div 5 + 1 - i) ks)) m"
  using assms
proof (induction ks arbitrary: i m)
  case Nil
  then show ?case by simp
next
  case (Cons k ks)
  let ?m' = "AList.delete k m"
  have kin: "k \<in> fst ` set m" using Cons.prems(3) by auto
  have len_m: "length m = Suc (length ks)"
  proof -
    have "length (map fst m) = card (set (map fst m))"
      using distinct_card [OF Cons.prems(2)] by simp
    also have "\<dots> = card (set (k # ks))" using Cons.prems(3) by simp
    also have "\<dots> = length (k # ks)" using distinct_card [OF Cons.prems(1)] by simp
    finally show ?thesis by simp
  qed
  have len_m': "length ?m' = length ks"
    using length_delete_present [OF Cons.prems(2) kin] len_m by simp
  have iN: "i < N" using Cons.prems(4) by simp
  have lenks: "length ks = N - i - 1" using Cons.prems(4) by simp
  have stop: "(i \<ge> length ?m' div 4) \<longleftrightarrow> (i = N div 5)"
    unfolding len_m' lenks using quarter_stop [OF Cons.prems(5) iN] .
  show ?case
  proof (cases "i = N div 5")
    case True
    then have "purgeLoop i (k # ks) m = ?m'" using stop by (simp add: Let_def)
    moreover have "take (N div 5 + 1 - i) (k # ks) = [k]" using True by simp
    ultimately show ?thesis by (simp add: delete_filter)
  next
    case False
    then have lt: "Suc i \<le> N div 5" using Cons.prems(5) by simp
    have step: "purgeLoop i (k # ks) m = purgeLoop (Suc i) ks ?m'"
      using stop False by (simp add: Let_def)
    have d1: "distinct ks" using Cons.prems(1) by simp
    have d2: "distinct (map fst ?m')" using Cons.prems(2) by (simp add: distinct_delete)
    have s3: "set ks = fst ` set ?m'"
    proof -
      have "fst ` set ?m' = fst ` set m - {k}" by (rule keys_delete)
      also have "\<dots> = set (k # ks) - {k}" using Cons.prems(3) by simp
      also have "\<dots> = set ks" using Cons.prems(1) by auto
      finally show ?thesis by simp
    qed
    have n4: "Suc i + length ks = N" using Cons.prems(4) by simp
    have "purgeLoop (Suc i) ks ?m'
            = filter (\<lambda>p. fst p \<notin> set (take (N div 5 + 1 - Suc i) ks)) ?m'"
      by (rule Cons.IH [OF d1 d2 s3 n4 lt])
    moreover have "take (N div 5 + 1 - i) (k # ks) = k # take (N div 5 + 1 - Suc i) ks"
      using lt by (simp add: take_Cons')
    ultimately have "purgeLoop i (k # ks) m
        = filter (\<lambda>p. fst p \<notin> set (take (N div 5 + 1 - Suc i) ks)) (filter (\<lambda>p. fst p \<noteq> k) m)"
      and tk: "set (take (N div 5 + 1 - i) (k # ks)) = insert k (set (take (N div 5 + 1 - Suc i) ks))"
      using step by (simp_all add: delete_filter)
    then show ?thesis by (simp add: conj_commute)
  qed
qed

text \<open>
  The pass deletes the first \<open>length m div 5 + 1\<close> keys of the stable ascending order,
  whatever the size of the map.
\<close>

lemma purgeLru_exact:
  assumes "distinct (map fst m)" "CACHE_SIZE \<le> length m"
  shows "purgeLruCacheEntries m =
           filter (\<lambda>p. fst p \<notin> set (take (length m div 5 + 1)
                                        (sort_key (lastUsedOf m) (map fst m)))) m"
proof -
  let ?ks = "sort_key (lastUsedOf m) (map fst m)"
  have "purgeLoop 0 ?ks m = filter (\<lambda>p. fst p \<notin> set (take (length m div 5 + 1 - 0) ?ks)) m"
    by (rule purgeLoop_take) (use assms in simp_all)
  then show ?thesis using assms(2) by (simp add: purgeLruCacheEntries_def)
qed

lemma sort_key_hd_strict_min:
  fixes f :: "'a \<Rightarrow> int"
  assumes "k0 \<in> set xs" "\<forall>k \<in> set xs. k \<noteq> k0 \<longrightarrow> f k0 < f k"
  shows "\<exists>rest. sort_key f xs = k0 # rest"
proof -
  let ?s = "sort_key f xs"
  have k0s: "k0 \<in> set ?s" using assms(1) by simp
  then obtain h rest where s: "?s = h # rest" by (cases ?s) auto
  have "sorted (map f ?s)" by (rule sorted_sort_key)
  then have le: "\<forall>x \<in> set rest. f h \<le> f x" by (simp add: s)
  have hin: "h \<in> set xs"
  proof -
    have "h \<in> set ?s" by (simp add: s)
    then show ?thesis by simp
  qed
  have "h = k0"
  proof (rule ccontr)
    assume ne: "h \<noteq> k0"
    then have "k0 \<in> set rest" using k0s s by auto
    then have "f h \<le> f k0" using le by blast
    moreover have "f k0 < f h" using assms(2) hin ne by blast
    ultimately show False by simp
  qed
  then show ?thesis using s by blast
qed

lemma ceil_quarter_small:
  fixes n :: nat
  assumes "1 \<le> n" "n \<le> 8"
  shows "n div 5 + 1 = (n + 3) div 4"
proof (cases "n < 5")
  case True
  then have "n div 5 = 0" by simp
  moreover have "(n + 3) div 4 = 1"
    by (rule div_nat_eqI) (use assms(1) True in simp_all)
  ultimately show ?thesis by simp
next
  case False
  have "n div 5 = 1"
    by (rule div_nat_eqI) (use assms(2) False in simp_all)
  moreover have "(n + 3) div 4 = 2"
    by (rule div_nat_eqI) (use assms(2) False in simp_all)
  ultimately show ?thesis by simp
qed

lemma purgeLru_small:
  assumes "distinct (map fst m)" "CACHE_SIZE \<le> length m" "length m \<le> 8"
  shows "purgeLruCacheEntries m =
           filter (\<lambda>p. fst p \<notin> set (take ((length m + 3) div 4)
                                        (sort_key (lastUsedOf m) (map fst m)))) m"
proof -
  have "1 \<le> length m" using assms(2) by (simp add: CACHE_SIZE_def)
  then have "length m div 5 + 1 = (length m + 3) div 4"
    using assms(3) by (rule ceil_quarter_small)
  then show ?thesis using purgeLru_exact [OF assms(1,2)] by simp
qed

text \<open>
  On a map of nine entries, which the cache never holds, the loop deletes two keys, one
  less than \<open>\<lceil>9/4\<rceil>\<close>.
\<close>

lemma purgeLru_nine_entries:
  "CACHE_SIZE \<le> length nineEntries
   \<and> length nineEntries - length (purgeLruCacheEntries nineEntries) \<noteq> (length nineEntries + 3) div 4
   \<and> map fst (purgeLruCacheEntries nineEntries)
       = [''k3'', ''k4'', ''k5'', ''k6'', ''k7'', ''k8'', ''k9'']"
  by (simp add: nineEntries_def CACHE_SIZE_def purgeLruCacheEntries_def lastUsedOf_def
      entryUsedAt_def newCachedResponse_def Let_def)

text \<open>
  The pass and the insert after it, on a map of at most eight entries: there the number of
  deleted keys is \<open>\<lceil>size/4\<rceil>\<close>.
\<close>

lemma eviction_pass_up_to_eight:
  assumes "distinct (map fst (cache c))"
    and "CACHE_SIZE \<le> length (cache c)" and "length (cache c) \<le> 8"
  shows "let m = cache c; n = length m;
             ascending = sort_key (lastUsedOf m) (map fst m);
             oldest = take ((n + 3) div 4) ascending;
             c' = setInCache c key resp now
         in sorted (map (lastUsedOf m) ascending)
          \<and> purgeLruCacheEntries m = filter (\<lambda>p. fst p \<notin> set oldest) m
          \<and> length oldest = (n + 3) div 4 \<and> 1 \<le> length oldest
          \<and> length (purgeLruCacheEntries m) = n - (n + 3) div 4
          \<and> (\<forall>k0 \<in> fst ` set m.
                (\<forall>k \<in> fst ` set m. k \<noteq> k0 \<longrightarrow> lastUsedOf m k0 < lastUsedOf m k)
                \<longrightarrow> k0 \<in> set oldest)
          \<and> getFromCache c' key = Some (newCachedResponse resp now)
          \<and> (\<forall>k. k \<noteq> key \<longrightarrow>
                getFromCache c' k = (if k \<in> set oldest then None else getFromCache c k))"
proof -
  let ?m = "cache c"
  let ?n = "length ?m"
  let ?asc = "sort_key (lastUsedOf ?m) (map fst ?m)"
  let ?d = "(?n + 3) div 4"
  let ?old = "take ?d ?asc"
  have n1: "1 \<le> ?n" using assms(2) by (simp add: CACHE_SIZE_def)
  have d1: "1 \<le> ?d" using n1 by simp
  have dn: "?d \<le> ?n" using n1 by simp
  have purge: "purgeLruCacheEntries ?m = filter (\<lambda>p. fst p \<notin> set ?old) ?m"
    using assms by (rule purgeLru_small)
  have lenasc: "length ?asc = ?n" by simp
  have lenold: "length ?old = ?d" using dn by simp
  have srt: "sorted (map (lastUsedOf ?m) ?asc)" by (rule sorted_sort_key)
  have dist_asc: "distinct ?asc" using assms(1) by simp
  have lenpurge: "length (purgeLruCacheEntries ?m) = ?n - ?d"
  proof -
    have "distinct (map fst (purgeLruCacheEntries ?m))"
      unfolding purge using assms(1) by (simp add: distinct_map_filter)
    then have "length (purgeLruCacheEntries ?m) = card (fst ` set (purgeLruCacheEntries ?m))"
      using distinct_card [of "map fst (purgeLruCacheEntries ?m)"] by simp
    also have "fst ` set (purgeLruCacheEntries ?m) = fst ` set ?m - set ?old"
      unfolding purge by force
    also have "card (fst ` set ?m - set ?old) = card (fst ` set ?m) - card (set ?old)"
    proof (rule card_Diff_subset)
      show "finite (set ?old)" by simp
      have "set ?old \<subseteq> set ?asc" by (rule set_take_subset)
      then show "set ?old \<subseteq> fst ` set ?m" by simp
    qed
    also have "card (fst ` set ?m) = ?n"
      using distinct_card [OF assms(1)] by simp
    also have "card (set ?old) = ?d"
      using distinct_card [of ?old] dist_asc lenold by simp
    finally show ?thesis .
  qed
  have oldest: "\<forall>k0 \<in> fst ` set ?m.
      (\<forall>k \<in> fst ` set ?m. k \<noteq> k0 \<longrightarrow> lastUsedOf ?m k0 < lastUsedOf ?m k)
      \<longrightarrow> k0 \<in> set ?old"
  proof (intro ballI impI)
    fix k0
    assume k0: "k0 \<in> fst ` set ?m"
      and lt: "\<forall>k \<in> fst ` set ?m. k \<noteq> k0 \<longrightarrow> lastUsedOf ?m k0 < lastUsedOf ?m k"
    have "\<exists>rest. ?asc = k0 # rest"
      by (rule sort_key_hd_strict_min) (use k0 lt in simp_all)
    then obtain rest where "?asc = k0 # rest" by blast
    moreover obtain d' where "?d = Suc d'" using d1 by (cases ?d) auto
    ultimately show "k0 \<in> set ?old" by simp
  qed
  have ins: "getFromCache (setInCache c key resp now) key = Some (newCachedResponse resp now)"
    by (simp add: getFromCache_def setInCache_def update_conv)
  have others: "\<forall>k. k \<noteq> key \<longrightarrow>
      getFromCache (setInCache c key resp now) k
        = (if k \<in> set ?old then None else getFromCache c k)"
    by (simp add: getFromCache_def setInCache_def update_conv purge map_of_filter_keys)
  show ?thesis
    unfolding Let_def using srt purge lenold d1 lenpurge oldest ins others by simp
qed

subsection \<open>The size of the cache\<close>

text \<open>
  Every function that writes the map keeps the keys distinct and the cache within
  \<open>CACHE_SIZE\<close>, so the pass only ever meets a cache of exactly \<open>CACHE_SIZE\<close> entries.
\<close>

lemma length_update_le: "length (AList.update k v al) \<le> Suc (length al)"
  by (induction al) auto

lemma setInCache_keeps_distinct:
  assumes "distinct (map fst (cache c))"
  shows "distinct (map fst (cache (setInCache c key resp now)))"
proof -
  have "distinct (map fst (purgeLruCacheEntries (cache c)))"
  proof (cases "CACHE_SIZE \<le> length (cache c)")
    case True
    show ?thesis
      unfolding purgeLru_exact [OF assms True] using assms by (simp add: distinct_map_filter)
  next
    case False
    then show ?thesis using assms by (simp add: purgeLruCacheEntries_def)
  qed
  then show ?thesis by (simp add: setInCache_def distinct_update)
qed

lemma setInCache_bounded:
  assumes "distinct (map fst (cache c))" and "length (cache c) \<le> CACHE_SIZE"
  shows "length (cache (setInCache c key resp now)) \<le> CACHE_SIZE"
proof (cases "CACHE_SIZE \<le> length (cache c)")
  case True
  then have two: "length (cache c) = 2" using assms(2) by (simp add: CACHE_SIZE_def)
  let ?old = "take (length (cache c) div 5 + 1) (sort_key (lastUsedOf (cache c)) (map fst (cache c)))"
  have "?old \<noteq> []" using two by (cases "cache c") auto
  then obtain k where k: "k \<in> set ?old" by (cases ?old) auto
  have "set ?old \<subseteq> set (sort_key (lastUsedOf (cache c)) (map fst (cache c)))"
    by (rule set_take_subset)
  then have "k \<in> fst ` set (cache c)" using k by auto
  then obtain e where "(k, e) \<in> set (cache c)" by auto
  then have "length (filter (\<lambda>p. fst p \<notin> set ?old) (cache c)) < length (cache c)"
    using k by (intro length_filter_less [of "(k, e)"]) auto
  then have "length (purgeLruCacheEntries (cache c)) \<le> 1"
    unfolding purgeLru_exact [OF assms(1) True] using two by simp
  then show ?thesis
    using length_update_le [of key "newCachedResponse resp now" "purgeLruCacheEntries (cache c)"]
    by (simp add: setInCache_def CACHE_SIZE_def)
next
  case False
  then have "length (cache c) \<le> 1" by (simp add: CACHE_SIZE_def)
  then show ?thesis
    using False length_update_le [of key "newCachedResponse resp now" "cache c"]
    by (simp add: setInCache_def purgeLruCacheEntries_def CACHE_SIZE_def)
qed

lemma length_update_present:
  "k \<in> fst ` set al \<Longrightarrow> length (AList.update k v al) = length al"
  by (induction al) auto

lemma removeFromCache_bounded:
  assumes "distinct (map fst (cache c))" and "length (cache c) \<le> CACHE_SIZE"
  shows "distinct (map fst (cache (removeFromCache c key)))"
    and "length (cache (removeFromCache c key)) \<le> CACHE_SIZE"
proof -
  show "distinct (map fst (cache (removeFromCache c key)))"
    using assms(1) by (simp add: removeFromCache_def distinct_delete)
  have "length (AList.delete key (cache c)) \<le> length (cache c)" by (rule length_delete_le)
  then show "length (cache (removeFromCache c key)) \<le> CACHE_SIZE"
    using assms(2) by (simp add: removeFromCache_def)
qed

lemma purgeOldCacheEntries_bounded:
  assumes "distinct (map fst (cache c))" and "length (cache c) \<le> CACHE_SIZE"
  shows "distinct (map fst (cache (purgeOldCacheEntries c now)))"
    and "length (cache (purgeOldCacheEntries c now)) \<le> CACHE_SIZE"
proof -
  show "distinct (map fst (cache (purgeOldCacheEntries c now)))"
    using assms(1) by (simp add: purgeOldCacheEntries_def distinct_map_filter)
  have "length (filter (\<lambda>(key, cr). \<not> isExpired cr now) (cache c)) \<le> CACHE_SIZE"
    by (rule le_trans [OF length_filter_le assms(2)])
  then show "length (cache (purgeOldCacheEntries c now)) \<le> CACHE_SIZE"
    using assms(2) by (simp add: purgeOldCacheEntries_def)
qed

lemma getCachedResponse_bounded:
  assumes "distinct (map fst (cache c))" and "length (cache c) \<le> CACHE_SIZE"
  shows "distinct (map fst (cache (fst (getCachedResponse md5hex c request now))))"
    and "length (cache (fst (getCachedResponse md5hex c request now))) \<le> CACHE_SIZE"
proof -
  let ?c1 = "purgeOldCacheEntries c now"
  let ?key = "getMD5HashedCacheKey md5hex request"
  note d1 = purgeOldCacheEntries_bounded(1) [OF assms, of now]
  note l1 = purgeOldCacheEntries_bounded(2) [OF assms, of now]
  show "distinct (map fst (cache (fst (getCachedResponse md5hex c request now))))"
    using d1 by (simp add: getCachedResponse_def Let_def distinct_update split: option.splits)
  show "length (cache (fst (getCachedResponse md5hex c request now))) \<le> CACHE_SIZE"
  proof (cases "getFromCache ?c1 ?key")
    case None
    then show ?thesis using l1 by (simp add: getCachedResponse_def Let_def)
  next
    case (Some cr)
    then have "?key \<in> fst ` set (cache ?c1)"
      by (simp add: getFromCache_def) (metis map_of_eq_None_iff option.distinct(1))
    then have "length (AList.update ?key (cr\<lparr>lastUsed := now\<rparr>) (cache ?c1)) = length (cache ?c1)"
      by (rule length_update_present)
    then show ?thesis using l1 Some by (simp add: getCachedResponse_def Let_def)
  qed
qed

lemma held_bounded:
  assumes "held md5hex c"
  shows "distinct (map fst (cache c)) \<and> length (cache c) \<le> CACHE_SIZE"
  using assms
proof (induction rule: held.induct)
  case (new now)
  then show ?case by (simp add: NewVaultCache_def)
next
  case (set c key resp now)
  then show ?case using setInCache_keeps_distinct setInCache_bounded by blast
next
  case (remove c key)
  then show ?case using removeFromCache_bounded by blast
next
  case (get c request now)
  then show ?case using getCachedResponse_bounded by blast
qed

text \<open>
  C5: for every insert into a cache that the program can hold (distinct keys, at most
  \<open>CACHE_SIZE\<close> entries) and that holds at least \<open>CACHE_SIZE\<close> entries, the pass sorts the
  keys by \<open>lastUsed\<close> ascending and deletes exactly the first \<open>\<lceil>size/4\<rceil>\<close> of them, at least
  one, among them the strictly oldest key if there is one; after the insert the new entry
  is stored under its key, the deleted keys are gone, and every other key holds what it
  held, so that at most \<open>\<lceil>size/4\<rceil> + 1\<close> entries are lost.
\<close>

theorem C5_eviction_pass:
  assumes "distinct (map fst (cache c))"
    and "CACHE_SIZE \<le> length (cache c)" and "length (cache c) \<le> CACHE_SIZE"
  shows "let m = cache c; n = length m;
             ascending = sort_key (lastUsedOf m) (map fst m);
             oldest = take ((n + 3) div 4) ascending;
             c' = setInCache c key resp now
         in sorted (map (lastUsedOf m) ascending)
          \<and> purgeLruCacheEntries m = filter (\<lambda>p. fst p \<notin> set oldest) m
          \<and> length oldest = (n + 3) div 4 \<and> 1 \<le> length oldest
          \<and> length (purgeLruCacheEntries m) = n - (n + 3) div 4
          \<and> (\<forall>k0 \<in> fst ` set m.
                (\<forall>k \<in> fst ` set m. k \<noteq> k0 \<longrightarrow> lastUsedOf m k0 < lastUsedOf m k)
                \<longrightarrow> k0 \<in> set oldest)
          \<and> getFromCache c' key = Some (newCachedResponse resp now)
          \<and> (\<forall>k. k \<noteq> key \<longrightarrow>
                getFromCache c' k = (if k \<in> set oldest then None else getFromCache c k))"
proof -
  have "length (cache c) \<le> 8" using assms(3) by (simp add: CACHE_SIZE_def)
  with assms(1,2) show ?thesis by (rule eviction_pass_up_to_eight)
qed

theorem C5_eviction_pass_witness:
  "distinct (map fst (cache twoEntries)) \<and> CACHE_SIZE \<le> length (cache twoEntries)
   \<and> length (cache twoEntries) \<le> CACHE_SIZE
   \<and> purgeLruCacheEntries (cache twoEntries) = [(''k1'', entryUsedAt 5)]
   \<and> map fst (cache (setInCache twoEntries ''k3'' (jsonResponse 200 ''{}'') 9)) = [''k1'', ''k3'']"
proof -
  have d: "distinct (map fst (cache twoEntries))" by (simp add: twoEntries_def)
  have s: "CACHE_SIZE \<le> length (cache twoEntries)" by (simp add: twoEntries_def CACHE_SIZE_def)
  have l: "length (cache twoEntries) \<le> CACHE_SIZE" by (simp add: twoEntries_def CACHE_SIZE_def)
  have srt: "sort_key (lastUsedOf (cache twoEntries)) (map fst (cache twoEntries)) = [''k2'', ''k1'']"
    by (simp add: twoEntries_def lastUsedOf_def entryUsedAt_def newCachedResponse_def Let_def)
  from C5_eviction_pass [OF d s l, of "''k3''" "jsonResponse 200 ''{}''" 9]
  have p: "purgeLruCacheEntries (cache twoEntries) = [(''k1'', entryUsedAt 5)]"
    unfolding Let_def srt by (simp add: twoEntries_def)
  then show ?thesis using d s l by (simp add: setInCache_def)
qed

subsection \<open>Lookup\<close>

lemma getFromCache_purgeOld:
  assumes "distinct (map fst (cache c))"
  shows "getFromCache (purgeOldCacheEntries c now) key =
           (case getFromCache c key of
              Some cr \<Rightarrow>
                if now - VAULT_CACHE_PURGE_FREQUENCY * 1000 > lastCachePurge c \<and> isExpired cr now
                then None else Some cr
            | None \<Rightarrow> None)"
  using map_of_filter_val [OF assms, of "\<lambda>cr. \<not> isExpired cr now" key]
  by (simp add: getFromCache_def purgeOldCacheEntries_def split: option.splits)

lemma getCachedResponse_hit:
  assumes "distinct (map fst (cache c))"
    and "getFromCache c (getMD5HashedCacheKey md5hex request) = Some cr" and "now \<le> expires cr"
  shows "snd (getCachedResponse md5hex c request now) = Some (getResponse cr)"
    and "getFromCache (fst (getCachedResponse md5hex c request now))
           (getMD5HashedCacheKey md5hex request) = Some (cr\<lparr>lastUsed := now\<rparr>)"
proof -
  have g: "getFromCache (purgeOldCacheEntries c now) (getMD5HashedCacheKey md5hex request) = Some cr"
    using assms by (simp add: getFromCache_purgeOld isExpired_def)
  show "snd (getCachedResponse md5hex c request now) = Some (getResponse cr)"
    using g assms(3) by (simp add: getCachedResponse_def Let_def isExpired_def getResponse_def)
  show "getFromCache (fst (getCachedResponse md5hex c request now))
           (getMD5HashedCacheKey md5hex request) = Some (cr\<lparr>lastUsed := now\<rparr>)"
    using g assms(3)
    by (simp add: getCachedResponse_def Let_def isExpired_def getFromCache_def update_conv)
qed

lemma getCachedResponse_miss:
  assumes "distinct (map fst (cache c))"
    and "\<forall>cr. getFromCache c (getMD5HashedCacheKey md5hex request) = Some cr \<longrightarrow> expires cr < now"
  shows "snd (getCachedResponse md5hex c request now) = None"
proof (cases "getFromCache (purgeOldCacheEntries c now) (getMD5HashedCacheKey md5hex request)")
  case None
  then show ?thesis by (simp add: getCachedResponse_def Let_def)
next
  case (Some cr)
  then have "getFromCache c (getMD5HashedCacheKey md5hex request) = Some cr"
    using assms(1) by (simp add: getFromCache_purgeOld split: option.splits if_splits)
  then have "expires cr < now" using assms(2) by blast
  then show ?thesis using Some by (simp add: getCachedResponse_def Let_def isExpired_def)
qed

text \<open>
  C4, as stated: an entry with \<open>expires \<le> now\<close> is never returned as a hit, the instant
  \<open>now = expires\<close> included. The entry inserted at 0 expires at 30000, and the lookup at
  30000 returns it.
\<close>

theorem C4_boundary_hit:
  "expires (entryUsedAt 0) \<le> 30000
   \<and> getFromCache fooCache (getMD5HashedCacheKey id fooRequest) = Some (entryUsedAt 0)
   \<and> snd (getCachedResponse id fooCache fooRequest 30000) = Some (jsonResponse 200 ''{}'')"
  by (simp add: fooCache_def entryUsedAt_def newCachedResponse_def Let_def getFromCache_def
      getCachedResponse_def purgeOldCacheEntries_def VAULT_CACHE_PURGE_FREQUENCY_def
      VAULT_CACHE_DEFAULT_EXPIRATION_def isExpired_def getResponse_def jsonResponse_def
      memReader_def)

text \<open>
  C4, amended: the lookup returns a hit exactly when the key is present and
  \<open>now \<le> expires\<close> (an entry is expired only when \<open>expires < now\<close>); a hit returns the
  stored response and sets the entry's \<open>lastUsed\<close> to \<open>now\<close>; an insert sets \<open>expires\<close> to
  \<open>now\<close> plus the default expiration and \<open>lastUsed\<close> to \<open>now\<close>.
\<close>

theorem C4_lookup:
  assumes "distinct (map fst (cache c))"
  shows "((\<exists>r. snd (getCachedResponse md5hex c request now) = Some r)
            \<longleftrightarrow> (\<exists>cr. getFromCache c (getMD5HashedCacheKey md5hex request) = Some cr
                      \<and> now \<le> expires cr))
       \<and> (\<forall>cr. getFromCache c (getMD5HashedCacheKey md5hex request) = Some cr \<and> now \<le> expires cr
             \<longrightarrow> snd (getCachedResponse md5hex c request now) = Some (getResponse cr)
               \<and> getFromCache (fst (getCachedResponse md5hex c request now))
                    (getMD5HashedCacheKey md5hex request) = Some (cr\<lparr>lastUsed := now\<rparr>))
       \<and> expires (newCachedResponse resp now) = now + VAULT_CACHE_DEFAULT_EXPIRATION * 1000
       \<and> lastUsed (newCachedResponse resp now) = now"
proof -
  let ?key = "getMD5HashedCacheKey md5hex request"
  have hit: "\<forall>cr. getFromCache c ?key = Some cr \<and> now \<le> expires cr
      \<longrightarrow> snd (getCachedResponse md5hex c request now) = Some (getResponse cr)
        \<and> getFromCache (fst (getCachedResponse md5hex c request now)) ?key
            = Some (cr\<lparr>lastUsed := now\<rparr>)"
    using getCachedResponse_hit [OF assms] by blast
  have iff: "(\<exists>r. snd (getCachedResponse md5hex c request now) = Some r)
            \<longleftrightarrow> (\<exists>cr. getFromCache c ?key = Some cr \<and> now \<le> expires cr)"
  proof
    assume "\<exists>r. snd (getCachedResponse md5hex c request now) = Some r"
    then have "\<not> (\<forall>cr. getFromCache c ?key = Some cr \<longrightarrow> expires cr < now)"
      using getCachedResponse_miss [OF assms] by fastforce
    then show "\<exists>cr. getFromCache c ?key = Some cr \<and> now \<le> expires cr" by force
  next
    assume "\<exists>cr. getFromCache c ?key = Some cr \<and> now \<le> expires cr"
    then show "\<exists>r. snd (getCachedResponse md5hex c request now) = Some r" using hit by blast
  qed
  have ins: "expires (newCachedResponse resp now) = now + VAULT_CACHE_DEFAULT_EXPIRATION * 1000
       \<and> lastUsed (newCachedResponse resp now) = now"
    by (simp add: newCachedResponse_def Let_def)
  show ?thesis using iff hit ins by blast
qed

theorem C4_lookup_witness:
  "distinct (map fst (cache fooCache))
   \<and> snd (getCachedResponse id fooCache fooRequest 29999) = Some (getResponse (entryUsedAt 0))
   \<and> snd (getCachedResponse id fooCache fooRequest 30001) = None"
proof -
  have d: "distinct (map fst (cache fooCache))" by (simp add: fooCache_def)
  have g: "getFromCache fooCache (getMD5HashedCacheKey id fooRequest) = Some (entryUsedAt 0)"
    by (simp add: fooCache_def getFromCache_def)
  have e: "expires (entryUsedAt 0) = 30000"
    by (simp add: entryUsedAt_def newCachedResponse_def Let_def VAULT_CACHE_DEFAULT_EXPIRATION_def)
  have h: "snd (getCachedResponse id fooCache fooRequest 29999) = Some (getResponse (entryUsedAt 0))"
    using C4_lookup [OF d, of id fooRequest 29999] g e by simp
  have m: "snd (getCachedResponse id fooCache fooRequest 30001) = None"
    using C4_lookup [OF d, of id fooRequest 30001] g e
    by (cases "snd (getCachedResponse id fooCache fooRequest 30001)") auto
  show ?thesis using d h m by simp
qed

subsection \<open>Refresh\<close>

text \<open>A body whose read fails after some bytes is cached with those bytes.\<close>

lemma newCachedResponse_keeps_partial_body:
  "bodyData (newCachedResponse (resp\<lparr>Body := \<lparr>bytes = partial, readErr = True\<rparr>\<rparr>) now) = partial"
  by (simp add: newCachedResponse_def Let_def)

lemma refreshCache_inserts_partial_body:
  assumes "StatusCode resp = 200"
  shows "\<exists>c'. refreshCache md5hex c request
                (Some (resp\<lparr>Body := \<lparr>bytes = partial, readErr = True\<rparr>\<rparr>), None) now
              = Done (c', Some (resp\<lparr>Body := memReader partial\<rparr>), None)
            \<and> (\<exists>cr. getFromCache c' (getMD5HashedCacheKey md5hex request) = Some cr
                    \<and> bodyData cr = partial)"
  using assms
  by (simp add: refreshCache_def Let_def setInCache_def getFromCache_def update_conv
      newCachedResponse_def)

text \<open>
  C3: when the upstream call fails, \<open>client.Do\<close> returns a nil response and the error.
  \<open>refreshCache\<close> then panics on \<open>response.StatusCode\<close>: the cache is unchanged, and the
  caller never receives the error.
\<close>

theorem C3_nil_response_panics:
  "refreshCache md5hex c request (None, Some err) now = Panic (c, None, Some err)"
  by (simp add: refreshCache_def Let_def)

section \<open>Properties of the upstream proxy stage\<close>

lemma copyHeaders_noHeader: "copyHeaders noHeader h = h"
  by (simp add: copyHeaders_def noHeader_def)

lemma writeResponse_fresh:
  assumes "\<not> readErr (Body resp)"
  shows "writeResponse st newWriter (Some resp) =
           Done (st, \<lparr>wHeader = Header resp, wStatus = Some (StatusCode resp),
                      wSent = Header resp, wBody = bytes (Body resp)\<rparr>)"
  using assms
  by (simp add: writeResponse_def Let_def newWriter_def copyHeaders_noHeader WriteHeader_def
      copyToWriter_def Write_def)

text \<open>
  C9, as stated: on a cacheable read an upstream 5xx reaches the client as a synthesized
  500. An upstream 503 with body \<open>sealed\<close> reaches the client as that 503.
\<close>

theorem C9_cacheable_503_verbatim:
  "isPathCacheable readHeader \<and> \<not> isRequestIgnorable readHeader
   \<and> wStatus (snd (outcome (ServeHTTP id emptyCache readHeader fooRequest
                               (Some (jsonResponse 503 ''sealed''), None) 0 newWriter))) = Some 503
   \<and> wBody (snd (outcome (ServeHTTP id emptyCache readHeader fooRequest
                               (Some (jsonResponse 503 ''sealed''), None) 0 newWriter))) = ''sealed''"
  by (simp add: readHeader_def ServeHTTP_def refreshCache_def Let_def jsonResponse_def
      writeResponse_def newWriter_def WriteHeader_def copyToWriter_def Write_def)

text \<open>
  C9, amended: when the upstream call returns a response and no error, and the body can be
  read to its end, the client receives the status, the headers and the body of the upstream
  response, for a cacheable read as for any other request.
\<close>

theorem C9_upstream_response_verbatim:
  assumes "refreshed = (Some resp, None)" and "\<not> readErr (Body resp)"
  shows "\<exists>c'. ServeHTTP md5hex c h request refreshed now newWriter =
           Done (c', \<lparr>wHeader = Header resp, wStatus = Some (StatusCode resp),
                      wSent = Header resp, wBody = bytes (Body resp)\<rparr>)"
proof (cases "isPathCacheable h \<and> \<not> isRequestIgnorable h")
  case False
  then show ?thesis
    using assms writeResponse_fresh [OF assms(2), of c] by (auto simp: ServeHTTP_def)
next
  case True
  show ?thesis
  proof (cases "StatusCode resp = 200")
    case ok: True
    let ?r = "response (newCachedResponse resp now)"
    have r: "?r = resp\<lparr>Body := memReader (bytes (Body resp))\<rparr>"
      by (simp add: newCachedResponse_def Let_def)
    have "\<not> readErr (Body ?r)" by (simp add: r memReader_def)
    from writeResponse_fresh [OF this]
    have "writeResponse (setInCache c (getMD5HashedCacheKey md5hex request) resp now) newWriter (Some ?r)
        = Done (setInCache c (getMD5HashedCacheKey md5hex request) resp now,
                \<lparr>wHeader = Header resp, wStatus = Some (StatusCode resp),
                 wSent = Header resp, wBody = bytes (Body resp)\<rparr>)"
      by (simp add: r memReader_def)
    then show ?thesis using True ok assms(1) by (simp add: ServeHTTP_def refreshCache_def Let_def)
  next
    case False
    then show ?thesis
      using True assms(1) writeResponse_fresh [OF assms(2), of c]
      by (simp add: ServeHTTP_def refreshCache_def Let_def)
  qed
qed

theorem C9_upstream_response_verbatim_witness:
  "\<not> readErr (Body (jsonResponse 500 ''boom''))
   \<and> wStatus (snd (outcome (ServeHTTP id emptyCache readHeader fooRequest
                               (Some (jsonResponse 500 ''boom''), None) 0 newWriter))) = Some 500
   \<and> wBody (snd (outcome (ServeHTTP id emptyCache readHeader fooRequest
                               (Some (jsonResponse 500 ''boom''), None) 0 newWriter))) = ''boom''"
proof -
  have b: "\<not> readErr (Body (jsonResponse 500 ''boom''))" by (simp add: jsonResponse_def)
  from C9_upstream_response_verbatim [OF refl b, of id emptyCache readHeader fooRequest 0]
  obtain c' where "ServeHTTP id emptyCache readHeader fooRequest
      (Some (jsonResponse 500 ''boom''), None) 0 newWriter
    = Done (c', \<lparr>wHeader = Header (jsonResponse 500 ''boom''),
                  wStatus = Some (StatusCode (jsonResponse 500 ''boom'')),
                  wSent = Header (jsonResponse 500 ''boom''),
                  wBody = bytes (Body (jsonResponse 500 ''boom''))\<rparr>)" by blast
  then show ?thesis using b by (simp add: jsonResponse_def)
qed

text \<open>On a cacheable read a failed upstream call ends in the panic of \<open>refreshCache\<close>.\<close>

lemma ServeHTTP_cacheable_network_error:
  assumes "isPathCacheable h" "\<not> isRequestIgnorable h"
  shows "ServeHTTP md5hex c h request (None, Some err) now writer = Panic (c, writer)"
  using assms by (simp add: ServeHTTP_def refreshCache_def Let_def)

section \<open>Properties of the composite limiter\<close>

lemma allowEach_fst: "fst (allowEach allowOf bs) \<longleftrightarrow> (\<forall>b \<in> set bs. fst (allowOf b))"
  by (induction bs) (auto simp: Let_def)

lemma allowEach_all:
  "\<forall>b \<in> set bs. fst (allowOf b) \<Longrightarrow> snd (allowEach allowOf bs) = map (\<lambda>b. snd (allowOf b)) bs"
  by (induction bs) (auto simp: Let_def)

lemma allowEach_deny:
  assumes "\<forall>b \<in> set pre. fst (allowOf b)" and "\<not> fst (allowOf d)"
  shows "allowEach allowOf (pre @ d # post)
           = (False, map (\<lambda>b. snd (allowOf b)) pre @ snd (allowOf d) # post)"
  using assms by (induction pre) (auto simp: Let_def)

lemma sort_key_head_Min:
  fixes f :: "'a \<Rightarrow> rat"
  assumes "xs \<noteq> []"
  shows "\<exists>h rest. sort_key f xs = h # rest \<and> f h = Min (f ` set xs)"
proof -
  let ?s = "sort_key f xs"
  have "?s \<noteq> []" using assms by (metis length_0_conv length_sort)
  then obtain h rest where s: "?s = h # rest" by (cases ?s) auto
  have "sorted (map f ?s)" by (rule sorted_sort_key)
  then have le: "\<forall>x \<in> set rest. f h \<le> f x" by (simp add: s)
  have sets: "set xs = insert h (set rest)"
  proof -
    have "set ?s = set xs" by simp
    then show ?thesis by (simp add: s)
  qed
  have "Min (f ` set xs) = f h"
  proof (rule Min_eqI)
    show "finite (f ` set xs)" by simp
    show "\<And>y. y \<in> f ` set xs \<Longrightarrow> f h \<le> y" using le sets by auto
    show "f h \<in> f ` set xs" using sets by simp
  qed
  then show ?thesis using s by simp
qed

text \<open>
  C6: a composite limiter built by \<open>MultiLimiter\<close> from at least one component holds the
  components sorted ascending by rate; \<open>Allow\<close> returns true exactly when every component
  allows, and then every component has been asked and holds its state after the call;
  \<open>Limit\<close> is the smallest rate among the components, the rate of the most restrictive one.
\<close>

theorem C6_composite:
  assumes "ls \<noteq> []"
  shows "sorted (map limitOf (limiters (MultiLimiter limitOf ls)))
       \<and> mset (limiters (MultiLimiter limitOf ls)) = mset ls
       \<and> (fst (Allow allowOf (MultiLimiter limitOf ls)) \<longleftrightarrow> (\<forall>b \<in> set ls. fst (allowOf b)))
       \<and> (fst (Allow allowOf (MultiLimiter limitOf ls)) \<longrightarrow>
            limiters (snd (Allow allowOf (MultiLimiter limitOf ls)))
              = map (\<lambda>b. snd (allowOf b)) (limiters (MultiLimiter limitOf ls)))
       \<and> Limit limitOf (MultiLimiter limitOf ls) = Some (Min (limitOf ` set ls))"
proof -
  have a: "sorted (map limitOf (limiters (MultiLimiter limitOf ls)))"
    by (simp add: MultiLimiter_def)
  have b: "mset (limiters (MultiLimiter limitOf ls)) = mset ls"
    by (simp add: MultiLimiter_def)
  have c: "fst (Allow allowOf (MultiLimiter limitOf ls)) \<longleftrightarrow> (\<forall>b \<in> set ls. fst (allowOf b))"
    by (simp add: Allow_def Let_def MultiLimiter_def allowEach_fst)
  have d: "fst (Allow allowOf (MultiLimiter limitOf ls)) \<longrightarrow>
            limiters (snd (Allow allowOf (MultiLimiter limitOf ls)))
              = map (\<lambda>b. snd (allowOf b)) (limiters (MultiLimiter limitOf ls))"
    by (simp add: Allow_def Let_def MultiLimiter_def allowEach_fst allowEach_all)
  obtain h rest where "sort_key limitOf ls = h # rest" "limitOf h = Min (limitOf ` set ls)"
    using sort_key_head_Min [OF assms, of limitOf] by blast
  then have e: "Limit limitOf (MultiLimiter limitOf ls) = Some (Min (limitOf ` set ls))"
    by (simp add: Limit_def MultiLimiter_def)
  show ?thesis using a b c d e by blast
qed

text \<open>Without components \<open>Limit\<close> reads index 0 of an empty slice.\<close>

lemma Limit_no_components: "Limit limitOf (MultiLimiter limitOf []) = None"
  by (simp add: Limit_def MultiLimiter_def)

lemma Per_burst: "Per BURST_LIMIT_PER_SECOND Second = 2"
  by (simp add: Per_def Every_def BURST_LIMIT_PER_SECOND_def Second_def)

lemma Per_sustained: "Per RATE_LIMIT_PER_MINUTE Minute = 1 / 12"
  by (simp add: Per_def Every_def RATE_LIMIT_PER_MINUTE_def Minute_def Second_def)

lemma rateInf_large: "2 < rateInf"
proof -
  have "(2::rat) ^ 971 * 2 \<le> 2 ^ 971 * 2 ^ 53" by (intro mult_left_mono) simp_all
  then have "(2::rat) ^ 972 \<le> 2 ^ 1024" by (simp flip: power_add power_Suc2)
  moreover have "(2::rat) ^ 972 = 2 ^ 971 + 2 ^ 971" by simp
  moreover have "(2::rat) < 2 ^ 971"
    using power_strict_increasing [of 1 971 "2::rat"] by simp
  ultimately show ?thesis by (simp add: rateInf_def)
qed

theorem C6_composite_witness:
  "[burstBucket 0, sustainedBucket 0] \<noteq> []
   \<and> limiters (MultiLimiter rateLimit [burstBucket 0, sustainedBucket 0])
       = [sustainedBucket 0, burstBucket 0]
   \<and> fst (Allow (allowAt 0) (MultiLimiter rateLimit [burstBucket 0, sustainedBucket 0]))
   \<and> Limit rateLimit (MultiLimiter rateLimit [burstBucket 0, sustainedBucket 0]) = Some (1 / 12)"
proof -
  have ne: "[burstBucket 0, sustainedBucket 0] \<noteq> []" by simp
  have rb: "rateLimit (burstBucket 0) = 2" by (simp add: burstBucket_def NewLimiter_def Per_burst)
  have rs: "rateLimit (sustainedBucket 0) = 1 / 12"
    by (simp add: sustainedBucket_def NewLimiter_def Per_sustained)
  have ab: "fst (allowAt 0 (burstBucket 0))"
    using rateInf_large
    by (simp add: allowAt_def Let_def advance_def burstBucket_def NewLimiter_def Per_burst)
  have as: "fst (allowAt 0 (sustainedBucket 0))"
    using rateInf_large
    by (simp add: allowAt_def Let_def advance_def sustainedBucket_def NewLimiter_def Per_sustained
        RATE_LIMITER_BUCKET_SIZE_def)
  have order: "limiters (MultiLimiter rateLimit [burstBucket 0, sustainedBucket 0])
       = [sustainedBucket 0, burstBucket 0]"
    by (simp add: MultiLimiter_def rb rs)
  from C6_composite [OF ne, of rateLimit "allowAt 0"] ab as rb rs
  have "fst (Allow (allowAt 0) (MultiLimiter rateLimit [burstBucket 0, sustainedBucket 0]))"
    and "Limit rateLimit (MultiLimiter rateLimit [burstBucket 0, sustainedBucket 0]) = Some (1 / 12)"
    by simp_all
  then show ?thesis using ne order by simp
qed

text \<open>
  C10: \<open>Allow\<close> is not atomic. When the components before \<open>d\<close> allow and \<open>d\<close> refuses,
  \<open>Allow\<close> returns false, the components before \<open>d\<close> hold their state after the call, and
  those after \<open>d\<close> are untouched. The pair of a visitor holds the sustained bucket first and
  the burst bucket second; when only the burst bucket refuses, the request is refused and
  the sustained bucket has one token less.
\<close>

theorem C10_allow_not_atomic:
  "((\<forall>b \<in> set pre. fst (allowOf b)) \<and> \<not> fst (allowOf d) \<longrightarrow>
      Allow allowOf \<lparr>limiters = pre @ d # post\<rparr>
        = (False, \<lparr>limiters = map (\<lambda>b. snd (allowOf b)) pre @ snd (allowOf d) # post\<rparr>))
   \<and> limiters (newVisitorLimiter configRegistry t) = [sustainedBucket t, burstBucket t]
   \<and> (rateLimit s = rateLimit (sustainedBucket t) \<and> rateLimit u = rateLimit (burstBucket t)
        \<and> fst (allowAt now s) \<and> \<not> fst (allowAt now u) \<longrightarrow>
      Allow (allowAt now) (MultiLimiter rateLimit [u, s])
        = (False, \<lparr>limiters = [s\<lparr>tokens := advance s now - 1, lastTime := now\<rparr>, u]\<rparr>))"
proof -
  have rb: "rateLimit (burstBucket t) = 2" by (simp add: burstBucket_def NewLimiter_def Per_burst)
  have rs: "rateLimit (sustainedBucket t) = 1 / 12"
    by (simp add: sustainedBucket_def NewLimiter_def Per_sustained)
  have generic: "(\<forall>b \<in> set pre. fst (allowOf b)) \<and> \<not> fst (allowOf d) \<longrightarrow>
      Allow allowOf \<lparr>limiters = pre @ d # post\<rparr>
        = (False, \<lparr>limiters = map (\<lambda>b. snd (allowOf b)) pre @ snd (allowOf d) # post\<rparr>)"
    by (simp add: Allow_def Let_def allowEach_deny)
  have order: "limiters (newVisitorLimiter configRegistry t) = [sustainedBucket t, burstBucket t]"
    using rb rs
    by (simp add: newVisitorLimiter_def configRegistry_def NewTokenRateLimiter_def MultiLimiter_def
        burstBucket_def sustainedBucket_def)
  have pair: "rateLimit s = rateLimit (sustainedBucket t) \<and> rateLimit u = rateLimit (burstBucket t)
        \<and> fst (allowAt now s) \<and> \<not> fst (allowAt now u) \<longrightarrow>
      Allow (allowAt now) (MultiLimiter rateLimit [u, s])
        = (False, \<lparr>limiters = [s\<lparr>tokens := advance s now - 1, lastTime := now\<rparr>, u]\<rparr>)"
  proof (intro impI, elim conjE)
    assume s: "rateLimit s = rateLimit (sustainedBucket t)"
      and u: "rateLimit u = rateLimit (burstBucket t)"
      and sa: "fst (allowAt now s)" and ud: "\<not> fst (allowAt now u)"
    have srt: "MultiLimiter rateLimit [u, s] = \<lparr>limiters = [s, u]\<rparr>"
      using s u rb rs by (simp add: MultiLimiter_def)
    have sne: "rateLimit s \<noteq> rateInf" using s rs rateInf_large by simp
    have s': "snd (allowAt now s) = s\<lparr>tokens := advance s now - 1, lastTime := now\<rparr>"
      using sa sne by (simp add: allowAt_def Let_def split: if_splits)
    have u': "snd (allowAt now u) = u"
      using ud by (simp add: allowAt_def Let_def split: if_splits)
    have "allowEach (allowAt now) ([s] @ u # []) =
            (False, map (\<lambda>b. snd (allowAt now b)) [s] @ snd (allowAt now u) # [])"
      by (rule allowEach_deny) (use sa ud in simp_all)
    then show "Allow (allowAt now) (MultiLimiter rateLimit [u, s])
        = (False, \<lparr>limiters = [s\<lparr>tokens := advance s now - 1, lastTime := now\<rparr>, u]\<rparr>)"
      by (simp add: srt Allow_def Let_def s' u')
  qed
  show ?thesis using generic order pair by blast
qed

lemma usedOnce_sustained:
  "usedOnce (sustainedBucket 0) = \<lparr>rateLimit = 1 / 12, burst = 5, tokens = 4, lastTime = 0\<rparr>"
  using rateInf_large
  by (simp add: usedOnce_def allowAt_def Let_def advance_def sustainedBucket_def NewLimiter_def
      Per_sustained RATE_LIMITER_BUCKET_SIZE_def)

lemma usedOnce_burst:
  "usedOnce (burstBucket 0) = \<lparr>rateLimit = 2, burst = 1, tokens = 0, lastTime = 0\<rparr>"
  using rateInf_large
  by (simp add: usedOnce_def allowAt_def Let_def advance_def burstBucket_def NewLimiter_def
      Per_burst)

theorem C10_allow_not_atomic_witness:
  "fst (allowAt 100 (usedOnce (sustainedBucket 0)))
   \<and> \<not> fst (allowAt 100 (usedOnce (burstBucket 0)))
   \<and> tokens (usedOnce (sustainedBucket 0)) = 4
   \<and> Allow (allowAt 100) (MultiLimiter rateLimit [usedOnce (burstBucket 0), usedOnce (sustainedBucket 0)])
       = (False, \<lparr>limiters = [(usedOnce (sustainedBucket 0))\<lparr>tokens := 361 / 120, lastTime := 100\<rparr>,
                               usedOnce (burstBucket 0)]\<rparr>)"
proof -
  let ?s = "usedOnce (sustainedBucket 0)"
  let ?u = "usedOnce (burstBucket 0)"
  have rs: "rateLimit ?s = rateLimit (sustainedBucket 0)"
    unfolding usedOnce_sustained by (simp add: sustainedBucket_def NewLimiter_def Per_sustained)
  have ru: "rateLimit ?u = rateLimit (burstBucket 0)"
    unfolding usedOnce_burst by (simp add: burstBucket_def NewLimiter_def Per_burst)
  have adv: "advance ?s 100 = 481 / 120"
    unfolding usedOnce_sustained by (simp add: advance_def)
  have sa: "fst (allowAt 100 ?s)"
    using rateInf_large adv unfolding usedOnce_sustained by (simp add: allowAt_def Let_def)
  have ud: "\<not> fst (allowAt 100 ?u)"
    using rateInf_large unfolding usedOnce_burst by (simp add: allowAt_def Let_def advance_def)
  have t4: "tokens ?s = 4" unfolding usedOnce_sustained by simp
  from C10_allow_not_atomic [where pre = "[?s]" and allowOf = "allowAt 100" and d = ?u
      and post = "[]" and t = 0 and s = ?s and u = ?u and now = 100]
  have "Allow (allowAt 100) (MultiLimiter rateLimit [?u, ?s])
       = (False, \<lparr>limiters = [?s\<lparr>tokens := advance ?s 100 - 1, lastTime := 100\<rparr>, ?u]\<rparr>)"
    using rs ru sa ud by blast
  then show ?thesis using sa ud t4 adv by simp
qed

section \<open>Properties of the rate limiter stage\<close>

lemma getFromLimiterCache_present:
  "map_of (limiterCache (fst (getFromLimiterCache l k now))) k
     = Some \<lparr>vLimiter = snd (getFromLimiterCache l k now), vLastUsed = now\<rparr>"
  by (cases "map_of (limiterCache l) k")
     (simp_all add: getFromLimiterCache_def setInLimiterCache_def Let_def update_conv)

lemma storeLimiter_stored:
  assumes "map_of (limiterCache l) k = Some v"
  shows "map_of (limiterCache (storeLimiter l k lmt)) k = Some (v\<lparr>vLimiter := lmt\<rparr>)"
  using assms by (simp add: storeLimiter_def update_conv)

lemma RateLimitHandler_hit:
  fixes l c h request now md5hex
  defines "got \<equiv> getFromLimiterCache (purgeTokenLimiters l now) (limiterCacheKey h) now"
  defines "allowed \<equiv> Allow (allowAt now) (snd got)"
  assumes "isPathCacheable h" "\<not> isRequestIgnorable h"
    and "snd (getCachedResponse md5hex c request now) = Some resp" and "\<not> readErr (Body resp)"
  shows "RateLimitHandler md5hex l c h request now newWriter =
           Done \<lparr>hRegistry = storeLimiter (fst got) (limiterCacheKey h) (snd allowed),
                 hCache = fst (getCachedResponse md5hex c request now),
                 hWriter = \<lparr>wHeader = Header resp, wStatus = Some (StatusCode resp),
                            wSent = Header resp, wBody = bytes (Body resp)\<rparr>,
                 hTrace = [AllowCalled (limiterCacheKey h),
                           CacheLookup (getMD5HashedCacheKey md5hex request)],
                 hVerdict = ServedFromCache\<rparr>"
  using assms(3-5) writeResponse_fresh [OF assms(6), of "()"]
  by (simp add: RateLimitHandler_def Let_def got_def allowed_def)

lemma RateLimitHandler_no_hit:
  fixes l c h request now md5hex
  defines "got \<equiv> getFromLimiterCache (purgeTokenLimiters l now) (limiterCacheKey h) now"
  defines "allowed \<equiv> Allow (allowAt now) (snd got)"
  defines "cacheableRead \<equiv> isPathCacheable h \<and> \<not> isRequestIgnorable h"
  assumes "cacheableRead \<longrightarrow> snd (getCachedResponse md5hex c request now) = None"
  shows "RateLimitHandler md5hex l c h request now w =
           Done \<lparr>hRegistry = storeLimiter (fst got) (limiterCacheKey h) (snd allowed),
                 hCache = (if cacheableRead then fst (getCachedResponse md5hex c request now) else c),
                 hWriter = (if fst allowed then w else httpError w ''Too Many Requests'' 429),
                 hTrace = AllowCalled (limiterCacheKey h) #
                   (if cacheableRead then [CacheLookup (getMD5HashedCacheKey md5hex request)] else []),
                 hVerdict = (if fst allowed then PassedToNext else TooManyRequests)\<rparr>"
proof (cases cacheableRead)
  case True
  then have "snd (getCachedResponse md5hex c request now) = None" using assms(4) by blast
  then show ?thesis
    using True
    by (simp add: RateLimitHandler_def Let_def got_def allowed_def cacheableRead_def)
next
  case False
  then show ?thesis
    by (auto simp: RateLimitHandler_def Let_def got_def allowed_def cacheableRead_def)
qed

lemma httpError_fresh:
  "wStatus (httpError newWriter msg code) = Some code
   \<and> wBody (httpError newWriter msg code) = msg @ [CHR 0x0A]"
  by (simp add: httpError_def Let_def newWriter_def WriteHeader_def Write_def)

text \<open>
  C1: for a request that reaches the stage with a fresh writer, the handler returns; it
  calls \<open>Allow\<close> once, before the cache lookup, which it makes only for a cacheable read;
  the visitor's limiter in the registry is the limiter after that call, whatever the exit.
  A cacheable read whose key holds an entry that has not expired is served from the cache,
  whatever \<open>Allow\<close> returned. The 429 reply is given exactly when \<open>Allow\<close> returned false
  and no hit was served; the request goes to the next stage, with the writer untouched,
  exactly when \<open>Allow\<close> returned true and no hit was served.
\<close>

theorem C1_rate_limit_stage:
  assumes "distinct (map fst (cache c))"
  shows "let key = limiterCacheKey h;
             got = getFromLimiterCache (purgeTokenLimiters l now) key now;
             allowed = Allow (allowAt now) (snd got);
             cacheableRead = (isPathCacheable h \<and> \<not> isRequestIgnorable h);
             ck = getMD5HashedCacheKey md5hex request;
             hit = (cacheableRead \<and> (\<exists>cr. getFromCache c ck = Some cr \<and> now \<le> expires cr))
         in \<exists>res. RateLimitHandler md5hex l c h request now newWriter = Done res
              \<and> hTrace res = AllowCalled key # (if cacheableRead then [CacheLookup ck] else [])
              \<and> (\<exists>v. map_of (limiterCache (hRegistry res)) key = Some v \<and> vLimiter v = snd allowed)
              \<and> (hit \<longrightarrow> hVerdict res = ServedFromCache
                    \<and> (\<forall>cr. getFromCache c ck = Some cr \<longrightarrow>
                          hWriter res = \<lparr>wHeader = Header (response cr),
                                          wStatus = Some (StatusCode (response cr)),
                                          wSent = Header (response cr), wBody = bodyData cr\<rparr>))
              \<and> (hVerdict res = TooManyRequests \<longleftrightarrow> \<not> fst allowed \<and> \<not> hit)
              \<and> (hVerdict res = TooManyRequests \<longrightarrow>
                    wStatus (hWriter res) = Some 429
                    \<and> wBody (hWriter res) = ''Too Many Requests'' @ [CHR 0x0A])
              \<and> (hVerdict res = PassedToNext \<longleftrightarrow> fst allowed \<and> \<not> hit)
              \<and> (hVerdict res = PassedToNext \<longrightarrow> hWriter res = newWriter)"
proof -
  define key where "key = limiterCacheKey h"
  define got where "got = getFromLimiterCache (purgeTokenLimiters l now) key now"
  define allowed where "allowed = Allow (allowAt now) (snd got)"
  define cacheableRead where "cacheableRead \<longleftrightarrow> isPathCacheable h \<and> \<not> isRequestIgnorable h"
  define ck where "ck = getMD5HashedCacheKey md5hex request"
  define hit where "hit \<longleftrightarrow> cacheableRead \<and> (\<exists>cr. getFromCache c ck = Some cr \<and> now \<le> expires cr)"
  define l2 where "l2 = storeLimiter (fst got) key (snd allowed)"
  have stored: "\<exists>v. map_of (limiterCache l2) key = Some v \<and> vLimiter v = snd allowed"
  proof -
    have "map_of (limiterCache (fst got)) key = Some \<lparr>vLimiter = snd got, vLastUsed = now\<rparr>"
      unfolding got_def by (rule getFromLimiterCache_present)
    from storeLimiter_stored [OF this, of "snd allowed"] show ?thesis by (simp add: l2_def)
  qed
  have main: "\<exists>res. RateLimitHandler md5hex l c h request now newWriter = Done res
              \<and> hTrace res = AllowCalled key # (if cacheableRead then [CacheLookup ck] else [])
              \<and> (\<exists>v. map_of (limiterCache (hRegistry res)) key = Some v \<and> vLimiter v = snd allowed)
              \<and> (hit \<longrightarrow> hVerdict res = ServedFromCache
                    \<and> (\<forall>cr. getFromCache c ck = Some cr \<longrightarrow>
                          hWriter res = \<lparr>wHeader = Header (response cr),
                                          wStatus = Some (StatusCode (response cr)),
                                          wSent = Header (response cr), wBody = bodyData cr\<rparr>))
              \<and> (hVerdict res = TooManyRequests \<longleftrightarrow> \<not> fst allowed \<and> \<not> hit)
              \<and> (hVerdict res = TooManyRequests \<longrightarrow>
                    wStatus (hWriter res) = Some 429
                    \<and> wBody (hWriter res) = ''Too Many Requests'' @ [CHR 0x0A])
              \<and> (hVerdict res = PassedToNext \<longleftrightarrow> fst allowed \<and> \<not> hit)
              \<and> (hVerdict res = PassedToNext \<longrightarrow> hWriter res = newWriter)"
  proof (cases hit)
    case True
    then obtain cr where cr: "getFromCache c ck = Some cr" "now \<le> expires cr"
      and cac: "isPathCacheable h" "\<not> isRequestIgnorable h"
      by (auto simp: hit_def cacheableRead_def)
    have looked: "snd (getCachedResponse md5hex c request now) = Some (getResponse cr)"
      using getCachedResponse_hit(1) [OF assms, of md5hex request cr now] cr by (simp add: ck_def)
    have nofail: "\<not> readErr (Body (getResponse cr))" by (simp add: getResponse_def memReader_def)
    have run: "RateLimitHandler md5hex l c h request now newWriter =
           Done \<lparr>hRegistry = l2,
                 hCache = fst (getCachedResponse md5hex c request now),
                 hWriter = \<lparr>wHeader = Header (getResponse cr),
                            wStatus = Some (StatusCode (getResponse cr)),
                            wSent = Header (getResponse cr), wBody = bytes (Body (getResponse cr))\<rparr>,
                 hTrace = [AllowCalled key, CacheLookup ck],
                 hVerdict = ServedFromCache\<rparr>"
      using RateLimitHandler_hit [OF cac looked nofail, of l]
      by (simp add: l2_def allowed_def got_def key_def ck_def)
    have cread: cacheableRead using cac by (simp add: cacheableRead_def)
    show ?thesis
      unfolding run using stored True cread cr(1)
      by (simp add: getResponse_def memReader_def)
  next
    case False
    have miss: "cacheableRead \<longrightarrow> snd (getCachedResponse md5hex c request now) = None"
    proof
      assume cacheableRead
      then have "\<forall>cr. getFromCache c ck = Some cr \<longrightarrow> expires cr < now"
        using False by (auto simp: hit_def)
      then show "snd (getCachedResponse md5hex c request now) = None"
        using getCachedResponse_miss [OF assms, of md5hex request now] by (simp add: ck_def)
    qed
    have run: "RateLimitHandler md5hex l c h request now newWriter =
           Done \<lparr>hRegistry = l2,
                 hCache = (if cacheableRead then fst (getCachedResponse md5hex c request now) else c),
                 hWriter = (if fst allowed then newWriter
                            else httpError newWriter ''Too Many Requests'' 429),
                 hTrace = AllowCalled key # (if cacheableRead then [CacheLookup ck] else []),
                 hVerdict = (if fst allowed then PassedToNext else TooManyRequests)\<rparr>"
      using RateLimitHandler_no_hit [of h md5hex c request now l newWriter] miss
      by (simp add: l2_def allowed_def got_def key_def ck_def cacheableRead_def)
    show ?thesis
      unfolding run using stored False httpError_fresh [of "''Too Many Requests''" 429]
      by simp
  qed
  show ?thesis
    unfolding Let_def
    using main
    unfolding key_def got_def allowed_def cacheableRead_def ck_def hit_def
    by blast
qed

lemma busy_denied:
  "\<not> fst (Allow (allowAt 100)
             (snd (getFromLimiterCache (purgeTokenLimiters busyRegistry 100)
                     (limiterCacheKey readHeader) 100)))"
proof -
  have p: "purgeTokenLimiters busyRegistry 100 = busyRegistry"
    by (simp add: purgeTokenLimiters_def busyRegistry_def configRegistry_def
        NewTokenRateLimiter_def RATE_LIMITER_PURGE_FREQUENCY_def)
  have g: "snd (getFromLimiterCache busyRegistry (limiterCacheKey readHeader) 100)
             = \<lparr>limiters = [usedOnce (sustainedBucket 0), usedOnce (burstBucket 0)]\<rparr>"
    by (simp add: getFromLimiterCache_def busyRegistry_def readHeader_def)
  have sa: "fst (allowAt 100 (usedOnce (sustainedBucket 0)))"
    using rateInf_large unfolding usedOnce_sustained by (simp add: allowAt_def Let_def advance_def)
  have ud: "\<not> fst (allowAt 100 (usedOnce (burstBucket 0)))"
    using rateInf_large unfolding usedOnce_burst by (simp add: allowAt_def Let_def advance_def)
  show ?thesis
    unfolding p g using sa ud by (simp add: Allow_def Let_def)
qed

theorem C1_rate_limit_stage_witness:
  "distinct (map fst (cache fooCache)) \<and> distinct (map fst (cache emptyCache))
   \<and> \<not> fst (Allow (allowAt 100)
               (snd (getFromLimiterCache (purgeTokenLimiters busyRegistry 100)
                       (limiterCacheKey readHeader) 100)))
   \<and> hVerdict (outcome (RateLimitHandler id busyRegistry fooCache readHeader fooRequest 100 newWriter))
       = ServedFromCache
   \<and> wStatus (hWriter (outcome
        (RateLimitHandler id busyRegistry fooCache readHeader fooRequest 100 newWriter))) = Some 200
   \<and> hVerdict (outcome (RateLimitHandler id busyRegistry emptyCache readHeader fooRequest 100 newWriter))
       = TooManyRequests
   \<and> wStatus (hWriter (outcome
        (RateLimitHandler id busyRegistry emptyCache readHeader fooRequest 100 newWriter))) = Some 429"
proof -
  have d1: "distinct (map fst (cache fooCache))" by (simp add: fooCache_def)
  have d2: "distinct (map fst (cache emptyCache))" by (simp add: emptyCache_def)
  have cac: "isPathCacheable readHeader \<and> \<not> isRequestIgnorable readHeader"
    by (simp add: readHeader_def)
  have g: "getFromCache fooCache (getMD5HashedCacheKey id fooRequest) = Some (entryUsedAt 0)"
    by (simp add: fooCache_def getFromCache_def)
  have e: "(100::int) \<le> expires (entryUsedAt 0)"
    by (simp add: entryUsedAt_def newCachedResponse_def Let_def VAULT_CACHE_DEFAULT_EXPIRATION_def)
  have st: "StatusCode (response (entryUsedAt 0)) = 200"
    by (simp add: entryUsedAt_def newCachedResponse_def Let_def jsonResponse_def)
  have n: "getFromCache emptyCache (getMD5HashedCacheKey id fooRequest) = None"
    by (simp add: emptyCache_def getFromCache_def)
  from C1_rate_limit_stage [OF d1, where h = readHeader and l = busyRegistry and now = 100
      and md5hex = id and request = fooRequest]
  obtain res where r: "RateLimitHandler id busyRegistry fooCache readHeader fooRequest 100 newWriter
        = Done res"
    and v: "hVerdict res = ServedFromCache"
    and w: "hWriter res = \<lparr>wHeader = Header (response (entryUsedAt 0)),
                             wStatus = Some (StatusCode (response (entryUsedAt 0))),
                             wSent = Header (response (entryUsedAt 0)),
                             wBody = bodyData (entryUsedAt 0)\<rparr>"
    unfolding Let_def using cac g e by blast
  from C1_rate_limit_stage [OF d2, where h = readHeader and l = busyRegistry and now = 100
      and md5hex = id and request = fooRequest]
  obtain res2 where r2: "RateLimitHandler id busyRegistry emptyCache readHeader fooRequest 100 newWriter
        = Done res2"
    and v2: "hVerdict res2 = TooManyRequests"
    and w2: "wStatus (hWriter res2) = Some 429"
    unfolding Let_def using cac n busy_denied by auto
  show ?thesis
    using d1 d2 busy_denied by (simp add: r v w st r2 v2 w2)
qed

section \<open>Properties of peer routing\<close>

text \<open>The hash agrees with the published test vectors of MurmurHash3.\<close>

lemma Sum32WithSeed_vectors:
  "Sum32WithSeed [] 0 = 0"
  "Sum32WithSeed [] 1 = 0x514E28B7"
  "Sum32WithSeed ''test'' 0x9747b28c = 0x704b81dc"
  "Sum32WithSeed ''Hello, world!'' 0x9747b28c = 0x24884CBA"
  "Sum32WithSeed ''The quick brown fox jumps over the lazy dog'' 0x9747b28c = 0x2FA826CD"
  by (simp_all add: Sum32WithSeed_def Let_def fmix32_def mixK_def rotl32_def byteOf_def)

lemma fillTable_below: "j < i \<Longrightarrow> fillTable i nodes table j = table j"
  by (induction nodes arbitrary: i table) auto

lemma fillTable_index:
  "k < length nodes \<Longrightarrow> fillTable i nodes table (i + int k) = Some (Address (nodes ! k))"
proof (induction nodes arbitrary: i table k)
  case Nil
  then show ?case by simp
next
  case (Cons node nodes)
  show ?case
  proof (cases k)
    case 0
    then show ?thesis by (simp add: fillTable_below)
  next
    case (Suc k')
    then have "k' < length nodes" using Cons.prems by simp
    then have "fillTable (i + 1) nodes (table(i \<mapsto> Address node)) ((i + 1) + int k')
                 = Some (Address (nodes ! k'))"
      by (rule Cons.IH)
    moreover have "i + int k = (i + 1) + int k'" using Suc by simp
    moreover have "(node # nodes) ! k = nodes ! k'" using Suc by simp
    moreover have "fillTable i (node # nodes) table
                     = fillTable (i + 1) nodes (table(i \<mapsto> Address node))"
      by (rule ext) simp
    ultimately show ?thesis by (simp only:)
  qed
qed

lemma published_sortByNodeId: "published (sortByNodeId a)"
proof -
  let ?nodes = "sort_key NodeId (Servers (vaultConfigResponse a))"
  have "\<forall>i < length ?nodes. fillTable 0 ?nodes (agentRoutingTable a) (int i) = Some (Address (?nodes ! i))"
    using fillTable_index [of _ ?nodes 0 "agentRoutingTable a"] by simp
  then show ?thesis by (simp add: published_def sortByNodeId_def Let_def)
qed

text \<open>Any ascending order of the servers, whichever \<open>sort.Slice\<close> leaves, is published.\<close>

lemma published_any_ascending:
  assumes "sorted (map NodeId nodes)"
  shows "published (a\<lparr>vaultConfigResponse := (vaultConfigResponse a)\<lparr>Servers := nodes\<rparr>,
                      agentRoutingTable := fillTable 0 nodes (agentRoutingTable a)\<rparr>)"
proof -
  have "\<forall>i < length nodes. fillTable 0 nodes (agentRoutingTable a) (int i) = Some (Address (nodes ! i))"
    using fillTable_index [of _ nodes 0 "agentRoutingTable a"] by simp
  then show ?thesis using assms by (simp add: published_def)
qed

lemma GetRoutingServer_published:
  assumes "published a" and "Servers (vaultConfigResponse a) \<noteq> []"
  shows "GetRoutingServer a request =
           Some (Address (Servers (vaultConfigResponse a)
                           ! (unat (Sum32WithSeed (headerGet (ReqHeader request) VAULT_TOKEN_HEADER)
                                      0x1234ABCD)
                              mod length (Servers (vaultConfigResponse a)))))"
proof -
  let ?n = "length (Servers (vaultConfigResponse a))"
  let ?h = "unat (Sum32WithSeed (headerGet (ReqHeader request) VAULT_TOKEN_HEADER) 0x1234ABCD)"
  have n: "?n \<noteq> 0" using assms(2) by simp
  have idx: "int ?h mod int ?n = int (?h mod ?n)" by (simp add: zmod_int)
  have lt: "?h mod ?n < ?n" using n by simp
  have "agentRoutingTable a (int (?h mod ?n))
          = Some (Address (Servers (vaultConfigResponse a) ! (?h mod ?n)))"
    using assms(1) lt unfolding published_def by blast
  then have tbl: "agentRoutingTable a (int ?h mod int ?n)
          = Some (Address (Servers (vaultConfigResponse a) ! (?h mod ?n)))"
    unfolding idx .
  have step: "GetRoutingServer a request =
      (case agentRoutingTable a (int ?h mod int ?n) of
         Some address \<Rightarrow> Some address | None \<Rightarrow> Some [])"
    using n by (simp add: GetRoutingServer_def Let_def hash_def)
  show ?thesis unfolding step tbl by simp
qed

text \<open>
  C7: \<open>sortByNodeId\<close> publishes the servers ascending by node id with the routing table
  over them. On a published snapshot of at least one server the owner of a request is the
  address at index \<open>murmur3_32(token, seed 0x1234ABCD) mod N\<close> of the sorted servers, and
  two agents that hold the same published snapshot return the same owner.
\<close>

theorem C7_owner:
  "published (sortByNodeId a0)
   \<and> Servers (vaultConfigResponse (sortByNodeId a0)) = sort_key NodeId (Servers (vaultConfigResponse a0))
   \<and> (published a \<and> Servers (vaultConfigResponse a) \<noteq> [] \<longrightarrow>
        GetRoutingServer a request =
          Some (Address (Servers (vaultConfigResponse a)
                          ! (unat (Sum32WithSeed (headerGet (ReqHeader request) VAULT_TOKEN_HEADER)
                                     0x1234ABCD)
                             mod length (Servers (vaultConfigResponse a))))))
   \<and> (published a \<and> published b \<and> Servers (vaultConfigResponse a) \<noteq> []
        \<and> Servers (vaultConfigResponse b) = Servers (vaultConfigResponse a) \<longrightarrow>
        GetRoutingServer b request = GetRoutingServer a request)"
proof -
  have s: "Servers (vaultConfigResponse (sortByNodeId a0))
             = sort_key NodeId (Servers (vaultConfigResponse a0))"
    by (simp add: sortByNodeId_def Let_def)
  have same: "published a \<and> published b \<and> Servers (vaultConfigResponse a) \<noteq> []
        \<and> Servers (vaultConfigResponse b) = Servers (vaultConfigResponse a) \<longrightarrow>
        GetRoutingServer b request = GetRoutingServer a request"
  proof (intro impI, elim conjE)
    assume pa: "published a" and pb: "published b"
      and ne: "Servers (vaultConfigResponse a) \<noteq> []"
      and eq: "Servers (vaultConfigResponse b) = Servers (vaultConfigResponse a)"
    have neb: "Servers (vaultConfigResponse b) \<noteq> []" using ne eq by simp
    show "GetRoutingServer b request = GetRoutingServer a request"
      unfolding GetRoutingServer_published [OF pa ne] GetRoutingServer_published [OF pb neb]
      by (simp add: eq)
  qed
  show ?thesis
    using published_sortByNodeId [of a0] s GetRoutingServer_published [of a request] same
    by blast
qed

lemma threePeers_sorted:
  "Servers (vaultConfigResponse (sortByNodeId (threePeers\<lparr>myAddress := addr\<rparr>)))
     = [peer ''raft1'' ''10.0.0.1:7200'', peer ''raft2'' ''10.0.0.2:7200'',
        peer ''raft3'' ''10.0.0.3:7200'']"
  by (simp add: sortByNodeId_def Let_def threePeers_def zeroConfigResponse_def peer_def)

lemma hash_t1: "unat (Sum32WithSeed ''t1'' 0x1234ABCD) = 375368317"
  by (simp add: Sum32WithSeed_def Let_def fmix32_def mixK_def rotl32_def byteOf_def)

theorem C7_owner_witness:
  "published (sortByNodeId threePeers)
   \<and> Servers (vaultConfigResponse (sortByNodeId threePeers)) \<noteq> []
   \<and> GetRoutingServer (sortByNodeId threePeers) fooRequest = Some ''10.0.0.2:7200''
   \<and> published (sortByNodeId (threePeers\<lparr>myAddress := ''10.0.0.3:7200''\<rparr>))
   \<and> GetRoutingServer (sortByNodeId (threePeers\<lparr>myAddress := ''10.0.0.3:7200''\<rparr>)) fooRequest
       = Some ''10.0.0.2:7200''"
proof -
  let ?a = "sortByNodeId threePeers"
  let ?b = "sortByNodeId (threePeers\<lparr>myAddress := ''10.0.0.3:7200''\<rparr>)"
  have sa: "Servers (vaultConfigResponse ?a)
     = [peer ''raft1'' ''10.0.0.1:7200'', peer ''raft2'' ''10.0.0.2:7200'',
        peer ''raft3'' ''10.0.0.3:7200'']"
    using threePeers_sorted [of "myAddress threePeers"] by simp
  have sb: "Servers (vaultConfigResponse ?b) = Servers (vaultConfigResponse ?a)"
    unfolding sa by (rule threePeers_sorted)
  have ne: "Servers (vaultConfigResponse ?a) \<noteq> []" unfolding sa by simp
  have tok: "headerGet (ReqHeader fooRequest) VAULT_TOKEN_HEADER = ''t1''"
    by (simp add: fooRequest_def getRequest_def headerGet_def VAULT_TOKEN_HEADER_def noHeader_def)
  have pa: "published ?a"
    using C7_owner [where ?a0.0 = threePeers and a = ?a and b = ?b and request = fooRequest]
    by blast
  have pb: "published ?b"
    using C7_owner [where ?a0.0 = "threePeers\<lparr>myAddress := ''10.0.0.3:7200''\<rparr>" and a = ?a and b = ?b
        and request = fooRequest]
    by blast
  have owner: "GetRoutingServer ?a fooRequest =
          Some (Address (Servers (vaultConfigResponse ?a)
                          ! (unat (Sum32WithSeed (headerGet (ReqHeader fooRequest) VAULT_TOKEN_HEADER)
                                     0x1234ABCD)
                             mod length (Servers (vaultConfigResponse ?a)))))"
    using C7_owner [where ?a0.0 = threePeers and a = ?a and b = ?b and request = fooRequest]
      pa ne by blast
  have same: "GetRoutingServer ?b fooRequest = GetRoutingServer ?a fooRequest"
    using C7_owner [where ?a0.0 = threePeers and a = ?a and b = ?b and request = fooRequest]
      pa pb ne sb by blast
  have val: "GetRoutingServer ?a fooRequest = Some ''10.0.0.2:7200''"
    unfolding owner tok hash_t1 sa by (simp add: peer_def)
  show ?thesis using pa pb ne val same by simp
qed

section \<open>Properties of the membership refresh\<close>

text \<open>
  When \<open>client.Do\<close> fails, the error is logged and the nil response panics: the agent is
  as it was, \<open>lastConfigCheck\<close> included, so the next request tries again.
\<close>

lemma getVaultConfigDetails_network_error:
  assumes "now - VAULT_CONFIG_CHECK_FREQUENCY * 1000 > lastConfigCheck a"
  shows "getVaultConfigDetails unmarshal a (None, Some err) now = Panic (a, [err])"
  using assms by (simp add: getVaultConfigDetails_def Let_def)

lemma mapPorts_mocks:
  "mapPorts 0 [mockServer1, mockServer2]
     = ([mockServer1\<lparr>Address := ''127.0.0.1:8001''\<rparr>, mockServer2\<lparr>Address := ''127.0.0.1:8002''\<rparr>],
        [], False)"
  by (simp add: mockServer1_def mockServer2_def Let_def Atoi_def parseUnsigned_def digitValue_def
      Itoa_def digitsOf.simps digitChar_def AGENT_VAULT_PORT_DIFF_def)

text \<open>
  C8: a refresh that fails leaves the snapshot and the routing table in place and logs the
  failure. Here the agent holds the snapshot of one server, and the upstream answers with a
  body that is not JSON: the snapshot is replaced by the two mock servers, the routing
  table is rewritten, \<open>lastConfigCheck\<close> moves on, and nothing is logged.
\<close>

theorem C8_not_json_replaces_snapshot:
  "Servers (vaultConfigResponse agent1) = [raft1]
   \<and> agentRoutingTable agent1 0 = Some ''127.0.0.1:7080''
   \<and> getVaultConfigDetails notJSON agent1 (Some (jsonResponse 200 ''<html>''), None) 10000
       = Done (agent1\<lparr>vaultConfigResponse := zeroConfigResponse\<lparr>Servers :=
                        [mockServer1\<lparr>Address := ''127.0.0.1:8001''\<rparr>,
                         mockServer2\<lparr>Address := ''127.0.0.1:8002''\<rparr>]\<rparr>,
                      agentRoutingTable := [0 \<mapsto> ''127.0.0.1:8001'', 1 \<mapsto> ''127.0.0.1:8002''],
                      lastConfigCheck := 10000\<rparr>, [])"
proof -
  have due: "(10000::int) - VAULT_CONFIG_CHECK_FREQUENCY * 1000 > lastConfigCheck agent1"
    by (simp add: VAULT_CONFIG_CHECK_FREQUENCY_def agent1_def)
  have obj: "addMockServers (fst (notJSON ''<html>'')) = zeroConfigResponse\<lparr>Servers := [mockServer1, mockServer2]\<rparr>"
    by (simp add: notJSON_def addMockServers_def zeroConfigResponse_def)
  have cpm: "changePortMapping (agent1\<lparr>vaultConfigResponse := zeroConfigResponse\<lparr>Servers := [mockServer1, mockServer2]\<rparr>\<rparr>)
      = Done (agent1\<lparr>vaultConfigResponse := zeroConfigResponse\<lparr>Servers :=
                        [mockServer1\<lparr>Address := ''127.0.0.1:8001''\<rparr>,
                         mockServer2\<lparr>Address := ''127.0.0.1:8002''\<rparr>]\<rparr>\<rparr>, [])"
    by (simp add: changePortMapping_def Let_def mapPorts_mocks del: mapPorts.simps)
  have srt: "sortByNodeId (agent1\<lparr>vaultConfigResponse := zeroConfigResponse\<lparr>Servers :=
                        [mockServer1\<lparr>Address := ''127.0.0.1:8001''\<rparr>,
                         mockServer2\<lparr>Address := ''127.0.0.1:8002''\<rparr>]\<rparr>\<rparr>)
      = agent1\<lparr>vaultConfigResponse := zeroConfigResponse\<lparr>Servers :=
                        [mockServer1\<lparr>Address := ''127.0.0.1:8001''\<rparr>,
                         mockServer2\<lparr>Address := ''127.0.0.1:8002''\<rparr>]\<rparr>,
                agentRoutingTable := [0 \<mapsto> ''127.0.0.1:8001'', 1 \<mapsto> ''127.0.0.1:8002'']\<rparr>"
    by (simp add: sortByNodeId_def Let_def mockServer1_def mockServer2_def agent1_def)
  have "getVaultConfigDetails notJSON agent1 (Some (jsonResponse 200 ''<html>''), None) 10000
       = Done (agent1\<lparr>vaultConfigResponse := zeroConfigResponse\<lparr>Servers :=
                        [mockServer1\<lparr>Address := ''127.0.0.1:8001''\<rparr>,
                         mockServer2\<lparr>Address := ''127.0.0.1:8002''\<rparr>]\<rparr>,
                      agentRoutingTable := [0 \<mapsto> ''127.0.0.1:8001'', 1 \<mapsto> ''127.0.0.1:8002''],
                      lastConfigCheck := 10000\<rparr>, [])"
    using due
    by (simp add: getVaultConfigDetails_def Let_def jsonResponse_def obj cpm srt)
  moreover have "Servers (vaultConfigResponse agent1) = [raft1]"
    by (simp add: agent1_def)
  moreover have "agentRoutingTable agent1 0 = Some ''127.0.0.1:7080''"
    by (simp add: agent1_def)
  ultimately show ?thesis by simp
qed

end
